theory Spec2Isabelle
  imports Main
begin

section \<open>Values that cross the message boundary\<close>

text \<open>
  The counters of \<^verbatim>\<open>worker.ts\<close> and of the coordinator are JavaScript \<^verbatim>\<open>bigint\<close>
  values (\<^verbatim>\<open>0n\<close>, \<^verbatim>\<open>checked++\<close>, \<^verbatim>\<open>reduce((a, b) => a + b, 0n)\<close>): unbounded
  integers, modelled by \<^typ>\<open>int\<close>. They cross the boundary between a worker and the
  coordinator as text: the worker sends \<^verbatim>\<open>checked.toString()\<close> and the coordinator reads
  it back with \<^verbatim>\<open>BigInt(checked)\<close>. Both are built-ins of the language; they are written
  out here so that the composition can be reasoned about.
\<close>

definition digit_char :: "nat \<Rightarrow> char" where
  "digit_char d = ''0123456789'' ! d"

definition is_digit :: "char \<Rightarrow> bool" where
  "is_digit c = (48 \<le> (of_char c :: nat) \<and> (of_char c :: nat) \<le> 57)"

definition digit_val :: "char \<Rightarrow> nat" where
  "digit_val c = of_char c - 48"

text \<open>Decimal digits of a natural number, most significant first, no leading zero.\<close>

function decimal :: "nat \<Rightarrow> string" where
  "decimal n = (if n < 10 then [digit_char n] else decimal (n div 10) @ [digit_char (n mod 10)])"
  by pat_completeness auto
termination
  by (relation "measure (\<lambda>n. n)") auto

declare decimal.simps [simp del]

text \<open>\<^verbatim>\<open>BigInt.prototype.toString()\<close>: radix 10, a minus sign for a negative value.\<close>

definition toString :: "int \<Rightarrow> string" where
  "toString x = (if x < 0 then CHR ''-'' # decimal (nat (- x)) else decimal (nat x))"

definition parse_decimal :: "string \<Rightarrow> nat option" where
  "parse_decimal s =
     (if s \<noteq> [] \<and> list_all is_digit s
      then Some (foldl (\<lambda>a c. 10 * a + digit_val c) 0 s)
      else None)"

text \<open>
  \<^verbatim>\<open>BigInt(string)\<close> on decimal text with an optional minus sign: the forms that
  \<^verbatim>\<open>toString\<close> produces. \<^const>\<open>None\<close> stands for the \<^verbatim>\<open>SyntaxError\<close> that the built-in
  throws on text that is no integer. (The built-in also accepts surrounding white space,
  a plus sign, the empty string and radix prefixes; no worker sends those and they are
  not distinguished from malformed text here.)
\<close>

definition BigInt :: "string \<Rightarrow> int option" where
  "BigInt s =
     (case s of
        [] \<Rightarrow> None
      | c # ds \<Rightarrow>
          if c = CHR ''-'' then map_option (\<lambda>n. - int n) (parse_decimal ds)
          else map_option int (parse_decimal s))"

section \<open>The search worker (\<^verbatim>\<open>src/src/worker.ts\<close>)\<close>

text \<open>
  \<^verbatim>\<open>UUID.v4\<close> and \<^verbatim>\<open>UUID.v5\<close> belong to the \<^verbatim>\<open>uuid\<close> package, not to this repository.
  \<^verbatim>\<open>v5\<close> is a parameter of every definition that uses it (a function of name and
  namespace); the random source of one worker is a parameter \<open>gen\<close>, the sequence of
  values that its successive calls of \<^verbatim>\<open>UUID.v4()\<close> return.
\<close>

type_synonym candidate = string
type_synonym uuid_v5 = "string \<Rightarrow> string \<Rightarrow> string"
type_synonym uuid_v4 = "nat \<Rightarrow> candidate"

definition BATCH_SIZE :: nat where
  "BATCH_SIZE = 100000"

text \<open>
  The data of a message to the worker with its fields destructured
  (\<^verbatim>\<open>const { targetPublic, workerId } = event.data\<close>). \<^const>\<open>None\<close> is JavaScript's
  \<^verbatim>\<open>undefined\<close>, what the destructuring gives for a field that the received object
  does not have: the handler has no other branch, whatever is received.
\<close>

datatype WorkerMessage = WorkerMessage (msg_targetPublic: "string option") (msg_workerId: "nat option")

text \<open>What a worker posts: \<^verbatim>\<open>{ type: 'progress', workerId, checked }\<close> and
  \<^verbatim>\<open>{ type: 'found', workerId, private, checked }\<close>, \<^verbatim>\<open>checked\<close> as text.\<close>

datatype report =
    Progress "nat option" string
  | Found "nat option" candidate string

text \<open>
  The variables that one activation of \<^verbatim>\<open>self.onmessage\<close> closes over. \<^verbatim>\<open>batchCount\<close>
  is a JavaScript number, incremented once per completed batch and never read; above
  \<open>2\<^sup>5\<^sup>3\<close> adding one to a double no longer changes it.
\<close>

record closure =
  cl_targetPublic :: "string option"
  cl_workerId :: "nat option"
  checked :: int
  batchCount :: nat

definition number_incr :: "nat \<Rightarrow> nat" where
  "number_incr n = (if n < 2 ^ 53 then n + 1 else n)"

text \<open>
  The \<^verbatim>\<open>for\<close> loop of \<^verbatim>\<open>checkBatch\<close> from index \<open>i\<close> on. \<open>drawn\<close> counts the calls of
  \<^verbatim>\<open>UUID.v4()\<close> made by this worker so far. The result is the candidate that matched,
  if one did (the \<^verbatim>\<open>return\<close> inside the loop), the counter and the number of draws.
  A target that is \<^verbatim>\<open>undefined\<close> is never \<^verbatim>\<open>===\<close> a string.
\<close>

function batch_loop ::
  "uuid_v5 \<Rightarrow> uuid_v4 \<Rightarrow> string option \<Rightarrow> nat \<Rightarrow> int \<Rightarrow> nat \<Rightarrow> candidate option \<times> int \<times> nat" where
  "batch_loop v5 gen target i chk drawn =
     (if i < BATCH_SIZE then
        (let candidate = gen drawn;
             publicFromCandidate = v5 candidate candidate;
             chk' = chk + 1
         in if Some publicFromCandidate = target then (Some candidate, chk', drawn + 1)
            else batch_loop v5 gen target (i + 1) chk' (drawn + 1))
      else (None, chk, drawn))"
  by pat_completeness auto
termination
  by (relation "measure (\<lambda>(v5, gen, target, i, chk, drawn). BATCH_SIZE - i)") auto

declare batch_loop.simps [simp del]

text \<open>
  One call of \<^verbatim>\<open>checkBatch\<close>: the closure afterwards, the number of draws, the message
  posted, and whether \<^verbatim>\<open>setTimeout(checkBatch, 0)\<close> was reached.
\<close>

definition checkBatch ::
  "uuid_v5 \<Rightarrow> uuid_v4 \<Rightarrow> closure \<Rightarrow> nat \<Rightarrow> closure \<times> nat \<times> report \<times> bool" where
  "checkBatch v5 gen cl drawn =
     (case batch_loop v5 gen (cl_targetPublic cl) 0 (checked cl) drawn of
        (Some candidate, chk, drawn') \<Rightarrow>
          (cl\<lparr>checked := chk\<rparr>, drawn',
           Found (cl_workerId cl) candidate (toString chk), False)
      | (None, chk, drawn') \<Rightarrow>
          (cl\<lparr>checked := chk, batchCount := number_incr (batchCount cl)\<rparr>, drawn',
           Progress (cl_workerId cl) (toString chk), True))"

text \<open>
  The worker as an event loop. \<open>timers\<close> holds the pending \<^verbatim>\<open>setTimeout(checkBatch, 0)\<close>
  callbacks, oldest first (equal delays fire in the order they were set); \<open>posted\<close>
  collects what was sent to the coordinator, oldest first.
\<close>

record worker =
  timers :: "closure list"
  drawn :: nat
  posted :: "report list"

definition worker_init :: worker where
  "worker_init = \<lparr>timers = [], drawn = 0, posted = []\<rparr>"

datatype worker_event = OnMessage WorkerMessage | Timeout

definition run_closure :: "uuid_v5 \<Rightarrow> uuid_v4 \<Rightarrow> worker \<Rightarrow> closure \<Rightarrow> worker" where
  "run_closure v5 gen w cl =
     (case checkBatch v5 gen cl (drawn w) of
        (cl', drawn', msg, again) \<Rightarrow>
          w\<lparr>timers := timers w @ (if again then [cl'] else []),
            drawn := drawn',
            posted := posted w @ [msg]\<rparr>)"

text \<open>\<^verbatim>\<open>self.onmessage\<close> starts a fresh closure and calls \<^verbatim>\<open>checkBatch()\<close> at once; a
  timer that fires calls the \<^verbatim>\<open>checkBatch\<close> of the closure that set it.\<close>

fun worker_step :: "uuid_v5 \<Rightarrow> uuid_v4 \<Rightarrow> worker \<Rightarrow> worker_event \<Rightarrow> worker" where
  "worker_step v5 gen w (OnMessage m) =
     run_closure v5 gen w
       \<lparr>cl_targetPublic = msg_targetPublic m, cl_workerId = msg_workerId m,
         checked = 0, batchCount = 0\<rparr>"
| "worker_step v5 gen w Timeout =
     (case timers w of
        [] \<Rightarrow> w
      | cl # rest \<Rightarrow> run_closure v5 gen (w\<lparr>timers := rest\<rparr>) cl)"

definition worker_run :: "uuid_v5 \<Rightarrow> uuid_v4 \<Rightarrow> worker \<Rightarrow> worker_event list \<Rightarrow> worker" where
  "worker_run v5 gen w evs = foldl (worker_step v5 gen) w evs"

section \<open>The coordinator (the main module, \<^verbatim>\<open>src/unnamed/part_000\<close>)\<close>

text \<open>
  Line 10: \<^verbatim>\<open>navigator.hardwareConcurrency || 8\<close>, a function of what the host reports
  (\<^const>\<open>None\<close> when it reports nothing; zero is falsy as well).
\<close>

definition WORKER_COUNT :: "nat option \<Rightarrow> nat" where
  "WORKER_COUNT hardwareConcurrency =
     (case hardwareConcurrency of None \<Rightarrow> 8 | Some n \<Rightarrow> if n = 0 then 8 else n)"

text \<open>Lines 14 and 15: the public value of the target, from the private one.\<close>

definition targetPublic :: "uuid_v5 \<Rightarrow> candidate \<Rightarrow> string" where
  "targetPublic v5 targetPrivate = v5 targetPrivate targetPrivate"

text \<open>
  What is written to the console, one constructor per line that carries data of the
  run. Static text, colours, and the figures computed from the wall clock in
  floating point (elapsed time, speed, percentage) are presentation and carry no
  argument here.
\<close>

datatype console_line =
    Blank
  | Target candidate string
  | Starting nat
  | ProgressLine int
  | FoundIt
  | PrivateUUID candidate
  | Checked int
  | Stopping
  | FinalStatistics
  | TotalChecked int
  | TotalTime
  | AvgSpeed
  | NotFound
  | WorkerError nat

text \<open>
  The variables of \<^verbatim>\<open>runBenchmark\<close> that its handlers share. \<open>workers\<close> has one entry
  per spawned worker, \<^const>\<open>True\<close> until \<^verbatim>\<open>terminate()\<close> is called on it.
  \<open>workerProgress\<close> is a JavaScript array of bigints: \<^const>\<open>None\<close> is a hole, which an
  assignment beyond the end leaves behind. \<open>progressInterval\<close> says whether the
  interval timer is still set. \<open>exit_code\<close> is \<^const>\<open>None\<close> while the process lives.
  \<open>uncaught\<close> records that a handler threw.
\<close>

record coordinator =
  workers :: "bool list"
  workerProgress :: "int option list"
  totalChecked :: int
  running :: bool
  found :: bool
  progressInterval :: bool
  console :: "console_line list"
  exit_code :: "int option"
  uncaught :: bool

text \<open>\<^verbatim>\<open>workerProgress[workerId] = v\<close>. An index beyond the end extends the array with
  holes; \<^verbatim>\<open>undefined\<close> as index sets a property that is no element.\<close>

fun array_set :: "int option list \<Rightarrow> nat option \<Rightarrow> int \<Rightarrow> int option list" where
  "array_set xs None v = xs"
| "array_set xs (Some i) v =
     (if i < length xs then xs[i := Some v]
      else xs @ replicate (i - length xs) None @ [Some v])"

text \<open>\<^verbatim>\<open>workerProgress.reduce((a, b) => a + b, 0n)\<close>; \<^verbatim>\<open>reduce\<close> skips holes.\<close>

definition reduce_sum :: "int option list \<Rightarrow> int" where
  "reduce_sum xs = foldl (\<lambda>a b. case b of None \<Rightarrow> a | Some v \<Rightarrow> a + v) 0 xs"

text \<open>Lines 132 to 153. \<^verbatim>\<open>process.exit(0)\<close> is its last statement.\<close>

definition stopAll :: "coordinator \<Rightarrow> coordinator" where
  "stopAll c =
     (let total = reduce_sum (workerProgress c)
      in c\<lparr>running := False,
           progressInterval := False,
           workers := map (\<lambda>w. False) (workers c),
           totalChecked := total,
           console := console c
             @ [Blank, Blank, FinalStatistics, TotalChecked total, TotalTime, AvgSpeed]
             @ (if \<not> found c then [NotFound] else [])
             @ [Blank],
           exit_code := Some 0\<rparr>)"

text \<open>
  Lines 81 to 95, \<^verbatim>\<open>worker.onmessage\<close>. In the \<^verbatim>\<open>found\<close> branch the fourth
  \<^verbatim>\<open>console.log\<close> evaluates \<^verbatim>\<open>BigInt(checked)\<close> before it prints, so text that is no
  integer throws there, after the flags are set and before \<^verbatim>\<open>stopAll()\<close>.
\<close>

fun onmessage :: "coordinator \<Rightarrow> report \<Rightarrow> coordinator" where
  "onmessage c (Progress wid chk) =
     (case BigInt chk of
        None \<Rightarrow> c\<lparr>uncaught := True\<rparr>
      | Some v \<Rightarrow> c\<lparr>workerProgress := array_set (workerProgress c) wid v\<rparr>)"
| "onmessage c (Found wid foundPrivate chk) =
     (let c1 = c\<lparr>found := True, running := False,
                 console := console c @ [Blank, FoundIt, PrivateUUID foundPrivate]\<rparr>
      in case BigInt chk of
           None \<Rightarrow> c1\<lparr>uncaught := True\<rparr>
         | Some v \<Rightarrow> stopAll (c1\<lparr>console := console c1 @ [Checked v]\<rparr>))"

text \<open>Lines 97 to 99, \<^verbatim>\<open>worker.onerror\<close>.\<close>

definition onerror :: "coordinator \<Rightarrow> nat \<Rightarrow> coordinator" where
  "onerror c i = c\<lparr>console := console c @ [WorkerError i]\<rparr>"

text \<open>Lines 106 to 130, the callback of the interval timer.\<close>

definition progress_tick :: "coordinator \<Rightarrow> coordinator" where
  "progress_tick c =
     (if \<not> running c then c
      else (let total = reduce_sum (workerProgress c)
            in c\<lparr>totalChecked := total, console := console c @ [ProgressLine total]\<rparr>))"

text \<open>Lines 156 to 160, the handler of \<^verbatim>\<open>SIGINT\<close>.\<close>

definition sigint :: "coordinator \<Rightarrow> coordinator" where
  "sigint c = stopAll (c\<lparr>console := console c @ [Blank, Stopping]\<rparr>)"

text \<open>
  The coordinator is single-threaded: its handlers run one at a time, each to its
  end. \<^verbatim>\<open>process.exit\<close> does not return, so once the exit code is set no handler of
  this process runs again; a cleared interval does not fire.
\<close>

datatype event = Message report | Error nat | Tick | SIGINT

fun dispatch :: "coordinator \<Rightarrow> event \<Rightarrow> coordinator" where
  "dispatch c ev =
     (if exit_code c \<noteq> None then c
      else (case ev of
              Message r \<Rightarrow> onmessage c r
            | Error i \<Rightarrow> onerror c i
            | Tick \<Rightarrow> if progressInterval c then progress_tick c else c
            | SIGINT \<Rightarrow> sigint c))"

text \<open>
  Lines 64 to 103: the state in which \<^verbatim>\<open>runBenchmark\<close> leaves the coordinator, with
  \<open>n\<close> workers created and the interval set.
\<close>

definition coordinator_init :: "uuid_v5 \<Rightarrow> candidate \<Rightarrow> nat \<Rightarrow> coordinator" where
  "coordinator_init v5 targetPrivate n =
     \<lparr>workers = replicate n True,
      workerProgress = replicate n (Some 0),
      totalChecked = 0,
      running = True,
      found = False,
      progressInterval = True,
      console = [Target targetPrivate (targetPublic v5 targetPrivate), Starting n],
      exit_code = None,
      uncaught = False\<rparr>"

section \<open>Coordinator and workers together\<close>

text \<open>
  The process: the coordinator, its worker threads, the start message posted to each
  worker (line 101) until the worker handles it, and for each worker the number of
  its posted messages that the coordinator has received so far. The messages of one
  worker arrive in the order in which they were posted.
\<close>

record system =
  coord :: coordinator
  pool :: "worker list"
  inbox :: "WorkerMessage list list"
  received :: "nat list"

definition runBenchmark :: "uuid_v5 \<Rightarrow> candidate \<Rightarrow> nat \<Rightarrow> system" where
  "runBenchmark v5 targetPrivate n =
     \<lparr>coord = coordinator_init v5 targetPrivate n,
      pool = replicate n worker_init,
      inbox = map (\<lambda>i. [WorkerMessage (Some (targetPublic v5 targetPrivate)) (Some i)]) [0..<n],
      received = replicate n 0\<rparr>"

text \<open>
  One turn of some event loop of the process: worker \<open>i\<close> handles its start message,
  a timer of worker \<open>i\<close> fires, the coordinator receives the next message of worker
  \<open>i\<close>, the interval fires, or the interrupt arrives. A terminated worker takes no
  turn, and nothing happens after the process has exited.
\<close>

datatype action = Start nat | Fire nat | Deliver nat | Interval | Interrupt

fun sys_step :: "uuid_v5 \<Rightarrow> (nat \<Rightarrow> uuid_v4) \<Rightarrow> system \<Rightarrow> action \<Rightarrow> system" where
  "sys_step v5 gens s a =
     (if exit_code (coord s) \<noteq> None then s
      else (case a of
              Start i \<Rightarrow>
                (if i < length (pool s) \<and> i < length (inbox s) \<and> i < length (workers (coord s))
                    \<and> workers (coord s) ! i \<and> inbox s ! i \<noteq> []
                 then s\<lparr>pool := (pool s)[i := worker_step v5 (gens i) (pool s ! i)
                                               (OnMessage (hd (inbox s ! i)))],
                        inbox := (inbox s)[i := tl (inbox s ! i)]\<rparr>
                 else s)
            | Fire i \<Rightarrow>
                (if i < length (pool s) \<and> i < length (workers (coord s)) \<and> workers (coord s) ! i
                 then s\<lparr>pool := (pool s)[i := worker_step v5 (gens i) (pool s ! i) Timeout]\<rparr>
                 else s)
            | Deliver i \<Rightarrow>
                (if i < length (pool s) \<and> i < length (received s)
                    \<and> received s ! i < length (posted (pool s ! i))
                 then s\<lparr>coord := dispatch (coord s) (Message (posted (pool s ! i) ! (received s ! i))),
                        received := (received s)[i := Suc (received s ! i)]\<rparr>
                 else s)
            | Interval \<Rightarrow> s\<lparr>coord := dispatch (coord s) Tick\<rparr>
            | Interrupt \<Rightarrow> s\<lparr>coord := dispatch (coord s) SIGINT\<rparr>))"

definition sys_run :: "uuid_v5 \<Rightarrow> (nat \<Rightarrow> uuid_v4) \<Rightarrow> system \<Rightarrow> action list \<Rightarrow> system" where
  "sys_run v5 gens s acts = foldl (sys_step v5 gens) s acts"

section \<open>Reading the model\<close>

text \<open>The \<^verbatim>\<open>checked\<close> field of a report.\<close>

fun checked_text :: "report \<Rightarrow> string" where
  "checked_text (Progress wid chk) = chk"
| "checked_text (Found wid foundPrivate chk) = chk"

text \<open>The \<^verbatim>\<open>progress\<close> messages of \<open>k\<close> completed batches of a loop that started
  at zero.\<close>

definition progress_reports :: "nat option \<Rightarrow> nat \<Rightarrow> report list" where
  "progress_reports wid k = map (\<lambda>m. Progress wid (toString (int (m * BATCH_SIZE)))) [1..<Suc k]"

text \<open>
  The coordinator posts nothing to a worker but the start message. An object without
  the fields \<^verbatim>\<open>targetPublic\<close> and \<^verbatim>\<open>workerId\<close>, such as \<^verbatim>\<open>{ type: 'stop' }\<close>,
  reaches the handler of the worker as this.
\<close>

definition stop_message :: WorkerMessage where
  "stop_message = WorkerMessage None None"

text \<open>The events whose handler reaches the call of \<^verbatim>\<open>stopAll()\<close>: the interrupt, and
  a \<^verbatim>\<open>found\<close> message (whose count is an integer).\<close>

definition calls_stopAll :: "event \<Rightarrow> bool" where
  "calls_stopAll ev =
     (case ev of
        SIGINT \<Rightarrow> True
      | Message (Found wid foundPrivate chk) \<Rightarrow> BigInt chk \<noteq> None
      | _ \<Rightarrow> False)"

text \<open>The coordinator handling a sequence of events, from the left.\<close>

definition coordinator_run :: "coordinator \<Rightarrow> event list \<Rightarrow> coordinator" where
  "coordinator_run c evs = foldl dispatch c evs"

section \<open>What holds in every state of a run\<close>

text \<open>The counts that the \<^verbatim>\<open>progress\<close> messages of a list carry, in order.\<close>

fun progress_vals :: "report list \<Rightarrow> int list" where
  "progress_vals [] = []"
| "progress_vals (Progress wid chk # rs) =
     (case BigInt chk of None \<Rightarrow> progress_vals rs | Some v \<Rightarrow> v # progress_vals rs)"
| "progress_vals (Found wid foundPrivate chk # rs) = progress_vals rs"

text \<open>A message as worker \<open>i\<close> posts it when its target is \<open>tp\<close>: its own id, a count
  that reads back, and for \<^verbatim>\<open>found\<close> a candidate whose public value is the target.\<close>

fun report_ok :: "uuid_v5 \<Rightarrow> string \<Rightarrow> nat \<Rightarrow> report \<Rightarrow> bool" where
  "report_ok v5 tp i (Progress wid chk) = (wid = Some i \<and> BigInt chk \<noteq> None)"
| "report_ok v5 tp i (Found wid c chk) = (wid = Some i \<and> BigInt chk \<noteq> None \<and> v5 c c = tp)"

text \<open>A pending loop of worker \<open>i\<close>: it searches for \<open>tp\<close>, reports as \<open>i\<close>, and its
  counter is not behind \<open>lo\<close>.\<close>

definition closure_ok :: "string \<Rightarrow> nat \<Rightarrow> int \<Rightarrow> closure \<Rightarrow> bool" where
  "closure_ok tp i lo cl =
     (cl_targetPublic cl = Some tp \<and> cl_workerId cl = Some i \<and> lo \<le> checked cl)"

text \<open>The count of the last \<^verbatim>\<open>progress\<close> message of a list, zero when there is none.\<close>

definition last_progress :: "report list \<Rightarrow> int" where
  "last_progress rs = last (0 # progress_vals rs)"

text \<open>A worker that was started at most once: its messages are well formed, the counts
  of its \<^verbatim>\<open>progress\<close> messages do not decrease, and at most one loop is pending, whose
  counter is not behind the last count posted.\<close>

definition worker_ok :: "uuid_v5 \<Rightarrow> string \<Rightarrow> nat \<Rightarrow> worker \<Rightarrow> bool" where
  "worker_ok v5 tp i w =
     (list_all (report_ok v5 tp i) (posted w)
      \<and> sorted (0 # progress_vals (posted w))
      \<and> length (timers w) \<le> 1
      \<and> list_all (closure_ok tp i (last_progress (posted w))) (timers w))"

text \<open>Worker \<open>i\<close> together with its start message, the number of its messages that the
  coordinator has received, and its entry in the progress table: the entry is the last
  count received; a worker whose start message is still waiting has done nothing.\<close>

definition slot_ok ::
  "uuid_v5 \<Rightarrow> string \<Rightarrow> nat \<Rightarrow> worker \<Rightarrow> WorkerMessage list \<Rightarrow> nat \<Rightarrow> int option \<Rightarrow> bool" where
  "slot_ok v5 tp i w box rcv entry =
     (worker_ok v5 tp i w
      \<and> rcv \<le> length (posted w)
      \<and> entry = Some (last_progress (take rcv (posted w)))
      \<and> (box = [] \<or> box = [WorkerMessage (Some tp) (Some i)] \<and> timers w = [] \<and> posted w = []))"

text \<open>The whole process: one slot per worker, all of them in order.\<close>

definition sys_inv :: "uuid_v5 \<Rightarrow> candidate \<Rightarrow> nat \<Rightarrow> system \<Rightarrow> bool" where
  "sys_inv v5 p n s =
     (length (pool s) = n \<and> length (inbox s) = n \<and> length (received s) = n
      \<and> length (workerProgress (coord s)) = n \<and> length (workers (coord s)) = n
      \<and> (\<forall>i < n. slot_ok v5 (targetPublic v5 p) i (pool s ! i) (inbox s ! i) (received s ! i)
                      (workerProgress (coord s) ! i)))"

text \<open>The derivation of the specification, \<open>derive(c) = UUIDv5(c, c)\<close>: the name under
  which lines 15 (coordinator) and 23 (worker) are compared.\<close>

definition derive :: "uuid_v5 \<Rightarrow> candidate \<Rightarrow> string" where
  "derive v5 c = v5 c c"

text \<open>While the process lives, no match has been reported and no handler has thrown.\<close>

definition quiet :: "coordinator \<Rightarrow> bool" where
  "quiet c = (exit_code c = None \<longrightarrow> \<not> found c \<and> \<not> uncaught c)"

text \<open>A worker after its start message and \<open>k\<close> timer turns.\<close>

definition started :: "uuid_v5 \<Rightarrow> uuid_v4 \<Rightarrow> string \<Rightarrow> nat \<Rightarrow> nat \<Rightarrow> worker" where
  "started v5 gen tp i k =
     worker_run v5 gen worker_init (OnMessage (WorkerMessage (Some tp) (Some i)) # replicate k Timeout)"

text \<open>Worker \<open>i\<close> of the pool: untouched while its start message waits, and afterwards
  what the start message and some number of timer turns have made of it.\<close>

definition slot_run ::
  "uuid_v5 \<Rightarrow> uuid_v4 \<Rightarrow> string \<Rightarrow> nat \<Rightarrow> worker \<Rightarrow> WorkerMessage list \<Rightarrow> bool" where
  "slot_run v5 gen tp i w box =
     (if box = [] then (\<exists>k. w = started v5 gen tp i k)
      else w = worker_init \<and> box = [WorkerMessage (Some tp) (Some i)])"

definition pool_run :: "uuid_v5 \<Rightarrow> (nat \<Rightarrow> uuid_v4) \<Rightarrow> candidate \<Rightarrow> nat \<Rightarrow> system \<Rightarrow> bool" where
  "pool_run v5 gens p n s =
     (length (pool s) = n \<and> length (inbox s) = n
      \<and> (\<forall>i < n. slot_run v5 (gens i) (targetPublic v5 p) i (pool s ! i) (inbox s ! i)))"

section \<open>Decimal text reads back exactly\<close>

lemma below_ten:
  "d < 10 \<Longrightarrow> d = 0 \<or> d = 1 \<or> d = 2 \<or> d = 3 \<or> d = 4 \<or> d = 5 \<or> d = 6 \<or> d = 7 \<or> d = 8 \<or> d = (9::nat)"
  by arith

lemma is_digit_digit_char: "d < 10 \<Longrightarrow> is_digit (digit_char d)"
  using below_ten [of d] by (auto simp: is_digit_def digit_char_def)

lemma digit_val_digit_char: "d < 10 \<Longrightarrow> digit_val (digit_char d) = d"
  using below_ten [of d] by (auto simp: digit_val_def digit_char_def)

lemma decimal_not_Nil: "decimal n \<noteq> []"
  by (subst decimal.simps) simp

lemma decimal_digits: "list_all is_digit (decimal n)"
proof (induction n rule: decimal.induct)
  case (1 n)
  show ?case
  proof (cases "n < 10")
    case True
    then show ?thesis by (subst decimal.simps) (simp add: is_digit_digit_char)
  next
    case False
    with "1" show ?thesis by (subst decimal.simps) (simp add: is_digit_digit_char)
  qed
qed

lemma decimal_value: "foldl (\<lambda>a c. 10 * a + digit_val c) 0 (decimal n) = n"
proof (induction n rule: decimal.induct)
  case (1 n)
  show ?case
  proof (cases "n < 10")
    case True
    then show ?thesis by (subst decimal.simps) (simp add: digit_val_digit_char)
  next
    case False
    with "1" show ?thesis by (subst decimal.simps) (simp add: digit_val_digit_char)
  qed
qed

lemma parse_decimal_decimal: "parse_decimal (decimal n) = Some n"
  by (simp add: parse_decimal_def decimal_not_Nil decimal_digits decimal_value)

lemma hd_decimal_digit: "is_digit (hd (decimal n))"
  using decimal_digits [of n] decimal_not_Nil [of n] by (cases "decimal n") simp_all

lemma minus_not_digit: "\<not> is_digit CHR ''-''"
  by (simp add: is_digit_def)

lemma BigInt_toString: "BigInt (toString x) = Some x"
proof (cases "x < 0")
  case True
  then show ?thesis by (simp add: BigInt_def toString_def parse_decimal_decimal)
next
  case False
  obtain c ds where cd: "decimal (nat x) = c # ds"
    using decimal_not_Nil [of "nat x"] by (cases "decimal (nat x)") auto
  have "c \<noteq> CHR ''-''"
    using hd_decimal_digit [of "nat x"] minus_not_digit cd by auto
  moreover have "parse_decimal (c # ds) = Some (nat x)"
    using parse_decimal_decimal [of "nat x"] cd by simp
  ultimately show ?thesis using False cd by (simp add: BigInt_def toString_def)
qed

section \<open>One batch\<close>

text \<open>A window of candidates without a match: the loop runs to the end of the batch.\<close>

lemma batch_loop_no_match:
  "i \<le> BATCH_SIZE \<Longrightarrow>
   \<forall>j. d \<le> j \<and> j < d + (BATCH_SIZE - i) \<longrightarrow> Some (v5 (gen j) (gen j)) \<noteq> target \<Longrightarrow>
   batch_loop v5 gen target i chk d = (None, chk + int (BATCH_SIZE - i), d + (BATCH_SIZE - i))"
proof (induction v5 gen target i chk d rule: batch_loop.induct)
  case (1 v5 gen target i chk d)
  show ?case
  proof (cases "i < BATCH_SIZE")
    case False
    with "1.prems" show ?thesis by (subst batch_loop.simps) simp
  next
    case True
    from "1.prems"(2) True have here: "Some (v5 (gen d) (gen d)) \<noteq> target" by simp
    have rest: "\<forall>j. d + 1 \<le> j \<and> j < d + 1 + (BATCH_SIZE - (i + 1))
                  \<longrightarrow> Some (v5 (gen j) (gen j)) \<noteq> target"
    proof (intro allI impI)
      fix j assume "d + 1 \<le> j \<and> j < d + 1 + (BATCH_SIZE - (i + 1))"
      with True have "d \<le> j \<and> j < d + (BATCH_SIZE - i)" by linarith
      with "1.prems"(2) show "Some (v5 (gen j) (gen j)) \<noteq> target" by blast
    qed
    have "batch_loop v5 gen target (i + 1) (chk + 1) (d + 1) =
          (None, chk + 1 + int (BATCH_SIZE - (i + 1)), d + 1 + (BATCH_SIZE - (i + 1)))"
      using "1.IH" [OF True refl refl refl here _ rest] True by simp
    moreover have "chk + 1 + int (BATCH_SIZE - (i + 1)) = chk + int (BATCH_SIZE - i)"
      using True by linarith
    moreover have "d + 1 + (BATCH_SIZE - (i + 1)) = d + (BATCH_SIZE - i)"
      using True by linarith
    ultimately show ?thesis using True here
      by (subst batch_loop.simps) (simp add: Let_def)
  qed
qed

text \<open>The first match inside the window ends the loop there.\<close>

lemma batch_loop_match:
  "d \<le> j \<Longrightarrow> j < d + (BATCH_SIZE - i) \<Longrightarrow> Some (v5 (gen j) (gen j)) = target \<Longrightarrow>
   \<forall>k. d \<le> k \<and> k < j \<longrightarrow> Some (v5 (gen k) (gen k)) \<noteq> target \<Longrightarrow>
   batch_loop v5 gen target i chk d = (Some (gen j), chk + int (j - d) + 1, j + 1)"
proof (induction v5 gen target i chk d rule: batch_loop.induct)
  case (1 v5 gen target i chk d)
  from "1.prems"(1,2) have lt: "i < BATCH_SIZE" by linarith
  show ?case
  proof (cases "j = d")
    case True
    with "1.prems"(3) lt show ?thesis by (subst batch_loop.simps) (simp add: Let_def)
  next
    case False
    with "1.prems"(1) have dj: "d < j" by simp
    with "1.prems"(4) have here: "Some (v5 (gen d) (gen d)) \<noteq> target" by simp
    have "batch_loop v5 gen target (i + 1) (chk + 1) (d + 1) =
          (Some (gen j), chk + 1 + int (j - (d + 1)) + 1, j + 1)"
      using "1.IH" [OF lt refl refl refl here] dj "1.prems" by simp
    moreover have "chk + 1 + int (j - (d + 1)) + 1 = chk + int (j - d) + 1"
      using dj by linarith
    ultimately show ?thesis using lt here
      by (subst batch_loop.simps) (simp add: Let_def)
  qed
qed

text \<open>Whatever the candidates: the counter grows by the number of draws, and a candidate
  that is returned derives the target and is the last one drawn.\<close>

lemma batch_loop_result:
  "batch_loop v5 gen target i chk d = (r, chk', d') \<Longrightarrow>
   d \<le> d' \<and> chk' = chk + int (d' - d) \<and>
   (case r of None \<Rightarrow> True | Some c \<Rightarrow> Some (v5 c c) = target \<and> d < d' \<and> c = gen (d' - 1))"
proof (induction v5 gen target i chk d rule: batch_loop.induct)
  case (1 v5 gen target i chk d)
  show ?case
  proof (cases "i < BATCH_SIZE")
    case False
    with "1.prems" show ?thesis by (subst (asm) batch_loop.simps) auto
  next
    case lt: True
    show ?thesis
    proof (cases "Some (v5 (gen d) (gen d)) = target")
      case True
      with "1.prems" lt show ?thesis by (subst (asm) batch_loop.simps) (auto simp: Let_def)
    next
      case False
      with "1.prems" lt have "batch_loop v5 gen target (i + 1) (chk + 1) (d + 1) = (r, chk', d')"
        by (subst (asm) batch_loop.simps) (simp add: Let_def)
      from "1.IH" [OF lt refl refl refl False this]
      show ?thesis by (auto split: option.splits)
    qed
  qed
qed

lemma checkBatch_result:
  assumes "checkBatch v5 gen cl d = (cl', d', msg, again)"
  shows "d \<le> d' \<and> checked cl' = checked cl + int (d' - d)
     \<and> cl_targetPublic cl' = cl_targetPublic cl \<and> cl_workerId cl' = cl_workerId cl
     \<and> (if again then msg = Progress (cl_workerId cl) (toString (checked cl'))
         else (\<exists>c. msg = Found (cl_workerId cl) c (toString (checked cl'))
                 \<and> Some (v5 c c) = cl_targetPublic cl \<and> d < d' \<and> c = gen (d' - 1)))"
proof -
  obtain r chk dd where bl: "batch_loop v5 gen (cl_targetPublic cl) 0 (checked cl) d = (r, chk, dd)"
    by (cases "batch_loop v5 gen (cl_targetPublic cl) 0 (checked cl) d") auto
  from batch_loop_result [OF bl] assms bl show ?thesis
    by (cases r) (auto simp: checkBatch_def)
qed

section \<open>The count across the message boundary\<close>

text \<open>
  Claim C8. The counter of a worker is an unbounded integer: after any call of
  \<^verbatim>\<open>checkBatch\<close>, from any value of the counter, it has grown by exactly the number of
  candidates drawn. The message posted carries the counter as decimal text, and
  \<^verbatim>\<open>BigInt\<close> reads that text back to the same integer, so the coordinator stores (for
  \<^verbatim>\<open>progress\<close>) or prints (for \<^verbatim>\<open>found\<close>) the exact count, however large.
\<close>

theorem checked_exact_across_boundary:
  "checkBatch v5 gen cl d = (cl', d', msg, again) \<Longrightarrow>
   checked cl' = checked cl + int (d' - d)
   \<and> checked_text msg = toString (checked cl')
   \<and> BigInt (checked_text msg) = Some (checked cl')
   \<and> (if again
      then workerProgress (onmessage c msg)
             = array_set (workerProgress c) (cl_workerId cl) (checked cl')
      else Checked (checked cl') \<in> set (console (onmessage c msg)))"
  using checkBatch_result [of v5 gen cl d cl' d' msg again]
  by (auto simp: BigInt_toString stopAll_def Let_def split: if_splits)

text \<open>A counter beyond 64 bits, with a match at the first candidate.\<close>

theorem checked_exact_across_boundary_witness:
  "checkBatch (\<lambda>name ns. name @ ns) (\<lambda>n. ''a'')
      \<lparr>cl_targetPublic = Some ''aa'', cl_workerId = Some 0,
       checked = 18446744073709551616, batchCount = 0\<rparr> 0
    = (\<lparr>cl_targetPublic = Some ''aa'', cl_workerId = Some 0,
        checked = 18446744073709551617, batchCount = 0\<rparr>,
       1, Found (Some 0) ''a'' ''18446744073709551617'', False)
   \<and> BigInt ''18446744073709551617'' = Some 18446744073709551617"
proof -
  have h: "checkBatch (\<lambda>name ns. name @ ns) (\<lambda>n. ''a'')
      \<lparr>cl_targetPublic = Some ''aa'', cl_workerId = Some 0,
       checked = 18446744073709551616, batchCount = 0\<rparr> 0
    = (\<lparr>cl_targetPublic = Some ''aa'', cl_workerId = Some 0,
        checked = 18446744073709551617, batchCount = 0\<rparr>,
       1, Found (Some 0) ''a'' ''18446744073709551617'', False)"
    by (simp add: checkBatch_def batch_loop.simps [of _ _ _ 0] BATCH_SIZE_def toString_def
        decimal.simps digit_char_def)
  from checked_exact_across_boundary [OF h, THEN conjunct2, THEN conjunct2, THEN conjunct1] h
  show ?thesis by simp
qed

section \<open>Runs of one worker\<close>

lemma progress_reports_Suc:
  "progress_reports wid (Suc k)
     = progress_reports wid k @ [Progress wid (toString (int (Suc k * BATCH_SIZE)))]"
  by (simp add: progress_reports_def algebra_simps)

lemma run_closure_no_match:
  assumes "\<forall>j. drawn w \<le> j \<and> j < drawn w + BATCH_SIZE \<longrightarrow> Some (v5 (gen j) (gen j)) \<noteq> cl_targetPublic cl"
  shows "run_closure v5 gen w cl =
     w\<lparr>timers := timers w @ [cl\<lparr>checked := checked cl + int BATCH_SIZE,
                                   batchCount := number_incr (batchCount cl)\<rparr>],
       drawn := drawn w + BATCH_SIZE,
       posted := posted w @ [Progress (cl_workerId cl) (toString (checked cl + int BATCH_SIZE))]\<rparr>"
proof -
  have "batch_loop v5 gen (cl_targetPublic cl) 0 (checked cl) (drawn w)
        = (None, checked cl + int (BATCH_SIZE - 0), drawn w + (BATCH_SIZE - 0))"
    using assms by (intro batch_loop_no_match) auto
  then show ?thesis by (simp add: run_closure_def checkBatch_def)
qed

lemma run_closure_match:
  assumes "drawn w \<le> j" "j < drawn w + BATCH_SIZE" "Some (v5 (gen j) (gen j)) = cl_targetPublic cl"
    and "\<forall>k. drawn w \<le> k \<and> k < j \<longrightarrow> Some (v5 (gen k) (gen k)) \<noteq> cl_targetPublic cl"
  shows "run_closure v5 gen w cl =
     w\<lparr>timers := timers w,
       drawn := j + 1,
       posted := posted w @ [Found (cl_workerId cl) (gen j) (toString (checked cl + int (j - drawn w) + 1))]\<rparr>"
proof -
  have "batch_loop v5 gen (cl_targetPublic cl) 0 (checked cl) (drawn w)
        = (Some (gen j), checked cl + int (j - drawn w) + 1, j + 1)"
    using assms by (intro batch_loop_match) auto
  then show ?thesis by (simp add: run_closure_def checkBatch_def)
qed

lemma worker_run_snoc:
  "worker_run v5 gen w (evs @ [ev]) = worker_step v5 gen (worker_run v5 gen w evs) ev"
  by (simp add: worker_run_def)

lemma worker_run_append:
  "worker_run v5 gen w (evs @ evs') = worker_run v5 gen (worker_run v5 gen w evs) evs'"
  by (simp add: worker_run_def)

lemma worker_run_idle:
  "timers w = [] \<Longrightarrow> worker_run v5 gen w (replicate m Timeout) = w"
  by (induction m) (simp_all add: worker_run_def)

lemma batches_without_match:
  assumes "\<forall>j < Suc k * BATCH_SIZE. Some (v5 (gen j) (gen j)) \<noteq> tp"
  shows "\<exists>b. worker_run v5 gen worker_init (OnMessage (WorkerMessage tp wid) # replicate k Timeout)
     = \<lparr>timers = [\<lparr>cl_targetPublic = tp, cl_workerId = wid,
                    checked = int (Suc k * BATCH_SIZE), batchCount = b\<rparr>],
        drawn = Suc k * BATCH_SIZE,
        posted = progress_reports wid (Suc k)\<rparr>"
  using assms
proof (induction k)
  case 0
  let ?cl = "\<lparr>cl_targetPublic = tp, cl_workerId = wid, checked = 0, batchCount = 0\<rparr>"
  have "\<forall>j. drawn worker_init \<le> j \<and> j < drawn worker_init + BATCH_SIZE \<longrightarrow>
           Some (v5 (gen j) (gen j)) \<noteq> cl_targetPublic ?cl"
    using "0.prems" by (simp add: worker_init_def)
  from run_closure_no_match [of worker_init v5 gen ?cl, OF this] show ?case
    by (simp add: worker_run_def worker_init_def progress_reports_def)
next
  case (Suc k)
  let ?start = "OnMessage (WorkerMessage tp wid)"
  have "\<forall>j < Suc k * BATCH_SIZE. Some (v5 (gen j) (gen j)) \<noteq> tp"
    using Suc.prems by simp
  from Suc.IH [OF this] obtain b where
    w: "worker_run v5 gen worker_init (?start # replicate k Timeout)
        = \<lparr>timers = [\<lparr>cl_targetPublic = tp, cl_workerId = wid,
                    checked = int (Suc k * BATCH_SIZE), batchCount = b\<rparr>],
           drawn = Suc k * BATCH_SIZE, posted = progress_reports wid (Suc k)\<rparr>"
    (is "?run = ?w") by blast
  let ?cl = "\<lparr>cl_targetPublic = tp, cl_workerId = wid, checked = int (Suc k * BATCH_SIZE), batchCount = b\<rparr>"
  have split: "?start # replicate (Suc k) Timeout = (?start # replicate k Timeout) @ [Timeout]"
    by (simp add: replicate_append_same)
  have nm: "\<forall>j. drawn (?w\<lparr>timers := []\<rparr>) \<le> j \<and> j < drawn (?w\<lparr>timers := []\<rparr>) + BATCH_SIZE \<longrightarrow>
           Some (v5 (gen j) (gen j)) \<noteq> cl_targetPublic ?cl"
    using Suc.prems by simp
  have "worker_run v5 gen worker_init (?start # replicate (Suc k) Timeout)
        = run_closure v5 gen (?w\<lparr>timers := []\<rparr>) ?cl"
    unfolding split worker_run_snoc w by simp
  also note run_closure_no_match [of "?w\<lparr>timers := []\<rparr>" v5 gen ?cl, OF nm]
  finally show ?case
    by (simp add: progress_reports_Suc algebra_simps)
qed

lemma batch_loop_None_iff:
  assumes "i \<le> BATCH_SIZE"
  shows "(fst (batch_loop v5 gen target i chk d) = None)
       = (\<forall>j. d \<le> j \<and> j < d + (BATCH_SIZE - i) \<longrightarrow> Some (v5 (gen j) (gen j)) \<noteq> target)"
proof (cases "\<exists>j. d \<le> j \<and> j < d + (BATCH_SIZE - i) \<and> Some (v5 (gen j) (gen j)) = target")
  case False
  then have nm: "\<forall>j. d \<le> j \<and> j < d + (BATCH_SIZE - i) \<longrightarrow> Some (v5 (gen j) (gen j)) \<noteq> target"
    by blast
  from batch_loop_no_match [of i d v5 gen target chk, OF assms nm] nm show ?thesis by simp
next
  case True
  define P where "P j = (d \<le> j \<and> j < d + (BATCH_SIZE - i) \<and> Some (v5 (gen j) (gen j)) = target)" for j
  from True have "\<exists>j. P j" by (simp add: P_def)
  then have least: "P (LEAST j. P j)" by (rule LeastI_ex)
  have before: "\<forall>k. d \<le> k \<and> k < (LEAST j. P j) \<longrightarrow> Some (v5 (gen k) (gen k)) \<noteq> target"
  proof (intro allI impI)
    fix k assume k: "d \<le> k \<and> k < (LEAST j. P j)"
    then have "\<not> P k" using not_less_Least by blast
    moreover from k least have "k < d + (BATCH_SIZE - i)" by (simp add: P_def)
    ultimately show "Some (v5 (gen k) (gen k)) \<noteq> target" using k by (simp add: P_def)
  qed
  from least have "d \<le> (LEAST j. P j)" "(LEAST j. P j) < d + (BATCH_SIZE - i)"
    "Some (v5 (gen (LEAST j. P j)) (gen (LEAST j. P j))) = target"
    by (simp_all add: P_def)
  from batch_loop_match [of d _ i v5 gen target chk, OF this before] True show ?thesis by auto
qed

lemma checkBatch_again_iff:
  assumes "checkBatch v5 gen cl d = (cl', d', msg, again)"
  shows "again = (\<forall>j. d \<le> j \<and> j < d + BATCH_SIZE \<longrightarrow> Some (v5 (gen j) (gen j)) \<noteq> cl_targetPublic cl)"
proof -
  have "again = (fst (batch_loop v5 gen (cl_targetPublic cl) 0 (checked cl) d) = None)"
    using assms by (auto simp: checkBatch_def split: prod.splits option.splits)
  then show ?thesis
    using batch_loop_None_iff [of 0 v5 gen "cl_targetPublic cl" "checked cl" d] by simp
qed

text \<open>
  Claim C9. The batch size is 100,000. When none of the first \<open>(k + 1) \<times> 100,000\<close>
  candidates matches, the start message and \<open>k\<close> timer turns complete \<open>k + 1\<close> batches:
  the \<open>m\<close>-th \<^verbatim>\<open>progress\<close> message carries \<open>m \<times> 100,000\<close>, the worker has drawn
  that many candidates (one increment of the counter per candidate), and the pending
  loop holds the cumulative count.
\<close>

theorem progress_is_cumulative:
  assumes "\<forall>j < Suc k * BATCH_SIZE. Some (v5 (gen j) (gen j)) \<noteq> tp"
  shows "posted (worker_run v5 gen worker_init (OnMessage (WorkerMessage tp wid) # replicate k Timeout))
           = map (\<lambda>m. Progress wid (toString (int m * 100000))) [1..<k + 2]
       \<and> drawn (worker_run v5 gen worker_init (OnMessage (WorkerMessage tp wid) # replicate k Timeout))
           = Suc k * 100000
       \<and> map checked (timers (worker_run v5 gen worker_init
                                  (OnMessage (WorkerMessage tp wid) # replicate k Timeout)))
           = [int (Suc k) * 100000]"
proof -
  from batches_without_match [of k v5 gen tp wid, OF assms] obtain b where
    "worker_run v5 gen worker_init (OnMessage (WorkerMessage tp wid) # replicate k Timeout)
     = \<lparr>timers = [\<lparr>cl_targetPublic = tp, cl_workerId = wid,
                    checked = int (Suc k * BATCH_SIZE), batchCount = b\<rparr>],
        drawn = Suc k * BATCH_SIZE,
        posted = progress_reports wid (Suc k)\<rparr>" by blast
  then show ?thesis
    by (simp add: progress_reports_def BATCH_SIZE_def)
qed

theorem progress_is_cumulative_witness:
  "posted (worker_run (\<lambda>name ns. name @ ns) (\<lambda>n. ''a'') worker_init
               [OnMessage (WorkerMessage (Some ''t'') (Some 0)), Timeout])
   = [Progress (Some 0) ''100000'', Progress (Some 0) ''200000'']"
proof -
  have h: "\<forall>j < Suc 1 * BATCH_SIZE. Some ((\<lambda>name ns. name @ ns) ((\<lambda>n. ''a'') j) ((\<lambda>n. ''a'') j)) \<noteq> Some ''t''"
    by simp
  have t: "toString 100000 = ''100000''" "toString 200000 = ''200000''"
    by (simp_all add: toString_def decimal.simps digit_char_def)
  from progress_is_cumulative
         [of 1 "\<lambda>name ns. name @ ns" "\<lambda>n. ''a''" "Some ''t''" "Some 0", OF h, THEN conjunct1] t
  show ?thesis
    by (simp add: upt_rec)
qed

text \<open>
  Let candidate \<open>j\<close> be the first that matches. A loop that is started once and is
  given at least \<open>j div BATCH_SIZE\<close> timer turns has posted the \<^verbatim>\<open>progress\<close> messages
  of the batches before the match and then one \<^verbatim>\<open>found\<close> message; no timer is pending
  afterwards, and \<open>j + 1\<close> candidates were drawn.
\<close>

lemma worker_run_until_found:
  assumes hit: "Some (v5 (gen j) (gen j)) = tp"
    and first: "\<forall>i < j. Some (v5 (gen i) (gen i)) \<noteq> tp"
    and turns: "j div BATCH_SIZE \<le> n"
  shows "worker_run v5 gen worker_init (OnMessage (WorkerMessage tp wid) # replicate n Timeout)
         = \<lparr>timers = [],
            drawn = j + 1,
            posted = map (\<lambda>m. Progress wid (toString (int (m * BATCH_SIZE)))) [1..<Suc (j div BATCH_SIZE)]
                     @ [Found wid (gen j) (toString (int j + 1))]\<rparr>"
proof -
  let ?start = "OnMessage (WorkerMessage tp wid)"
  let ?q = "j div BATCH_SIZE"
  have Bpos: "0 < BATCH_SIZE" by (simp add: BATCH_SIZE_def)
  have lo: "?q * BATCH_SIZE \<le> j" by simp
  have hi: "j < ?q * BATCH_SIZE + BATCH_SIZE"
    using Bpos by (metis add.commute dividend_less_div_times mult.commute)
  show ?thesis
  proof (cases ?q)
    case 0
    let ?cl = "\<lparr>cl_targetPublic = tp, cl_workerId = wid, checked = 0, batchCount = 0\<rparr>"
    have "run_closure v5 gen worker_init ?cl =
      worker_init\<lparr>timers := timers worker_init, drawn := j + 1,
        posted := posted worker_init @ [Found (cl_workerId ?cl) (gen j)
                     (toString (checked ?cl + int (j - drawn worker_init) + 1))]\<rparr>"
      using hit first hi 0 by (intro run_closure_match) (simp_all add: worker_init_def)
    then have one: "worker_step v5 gen worker_init ?start
        = \<lparr>timers = [], drawn = j + 1, posted = [Found wid (gen j) (toString (int j + 1))]\<rparr>"
      by (simp add: worker_init_def)
    have "worker_run v5 gen worker_init (?start # replicate n Timeout)
        = worker_run v5 gen (worker_step v5 gen worker_init ?start) (replicate n Timeout)"
      by (simp add: worker_run_def)
    also have "\<dots> = worker_step v5 gen worker_init ?start"
      using one by (intro worker_run_idle) simp
    finally show ?thesis using one 0 by simp
  next
    case (Suc k)
    define Q where "Q = Suc k * BATCH_SIZE"
    have Q: "Q \<le> j" "j < Q + BATCH_SIZE"
      using lo hi Suc by (simp_all add: Q_def)
    have nm: "\<forall>i < Suc k * BATCH_SIZE. Some (v5 (gen i) (gen i)) \<noteq> tp"
      using first lo Suc by auto
    from batches_without_match [of k v5 gen tp wid, OF nm] obtain b where
      "worker_run v5 gen worker_init (?start # replicate k Timeout)
        = \<lparr>timers = [\<lparr>cl_targetPublic = tp, cl_workerId = wid,
                    checked = int (Suc k * BATCH_SIZE), batchCount = b\<rparr>],
           drawn = Suc k * BATCH_SIZE, posted = progress_reports wid (Suc k)\<rparr>"
      by blast
    then have w0: "worker_run v5 gen worker_init (?start # replicate k Timeout)
        = \<lparr>timers = [\<lparr>cl_targetPublic = tp, cl_workerId = wid, checked = int Q, batchCount = b\<rparr>],
           drawn = Q, posted = progress_reports wid (Suc k)\<rparr>"
      unfolding Q_def .
    let ?cl = "\<lparr>cl_targetPublic = tp, cl_workerId = wid, checked = int Q, batchCount = b\<rparr>"
    let ?w = "\<lparr>timers = [?cl], drawn = Q, posted = progress_reports wid (Suc k)\<rparr>"
    let ?idle = "\<lparr>timers = [], drawn = Q, posted = progress_reports wid (Suc k)\<rparr>"
    have w: "worker_run v5 gen worker_init (?start # replicate k Timeout) = ?w"
      using w0 .
    from turns Suc obtain m where n: "n = k + 1 + m"
      by (metis Suc_eq_plus1 le_Suc_ex)
    have split: "?start # replicate n Timeout
                 = ((?start # replicate k Timeout) @ [Timeout]) @ replicate m Timeout"
      unfolding n by (simp add: replicate_add replicate_append_same)
    have "run_closure v5 gen ?idle ?cl =
      ?idle\<lparr>timers := timers ?idle, drawn := j + 1,
        posted := posted ?idle @ [Found (cl_workerId ?cl) (gen j)
                     (toString (checked ?cl + int (j - drawn ?idle) + 1))]\<rparr>"
      using hit first Q by (intro run_closure_match) simp_all
    moreover have "int Q + int (j - Q) + 1 = int j + 1"
      using Q by simp
    ultimately have "run_closure v5 gen ?idle ?cl
        = \<lparr>timers = [], drawn = j + 1,
           posted = progress_reports wid (Suc k) @ [Found wid (gen j) (toString (int j + 1))]\<rparr>"
      by simp
    moreover have "worker_step v5 gen ?w Timeout = run_closure v5 gen ?idle ?cl"
      by simp
    ultimately have step: "worker_step v5 gen ?w Timeout
        = \<lparr>timers = [], drawn = j + 1,
           posted = progress_reports wid (Suc k) @ [Found wid (gen j) (toString (int j + 1))]\<rparr>"
      by simp
    have "worker_run v5 gen worker_init (?start # replicate n Timeout)
        = worker_run v5 gen (worker_step v5 gen ?w Timeout) (replicate m Timeout)"
      unfolding split worker_run_append w by (simp add: worker_run_def)
    also have "\<dots> = worker_step v5 gen ?w Timeout"
      using step by (intro worker_run_idle) simp
    finally show ?thesis using step Suc by (simp add: progress_reports_def)
  qed
qed

section \<open>The coordinator alone\<close>

lemma coordinator_run_snoc: "coordinator_run c (evs @ [ev]) = dispatch (coordinator_run c evs) ev"
  by (simp add: coordinator_run_def)

lemma exit_code_stopAll: "exit_code (stopAll c) = Some 0"
  by (simp add: stopAll_def Let_def)

lemma workers_stopAll: "workers (stopAll c) = replicate (length (workers c)) False"
  by (simp add: stopAll_def Let_def map_replicate_const)

lemma workerProgress_stopAll: "workerProgress (stopAll c) = workerProgress c"
  by (simp add: stopAll_def Let_def)

lemma found_stopAll: "found (stopAll c) = found c"
  by (simp add: stopAll_def Let_def)

lemma totalChecked_stopAll: "totalChecked (stopAll c) = reduce_sum (workerProgress c)"
  by (simp add: stopAll_def Let_def)

lemma console_stopAll:
  "console (stopAll c) = console c
     @ [Blank, Blank, FinalStatistics, TotalChecked (reduce_sum (workerProgress c)), TotalTime, AvgSpeed]
     @ (if \<not> found c then [NotFound] else []) @ [Blank]"
  by (simp add: stopAll_def Let_def)

lemma dispatch_exited: "exit_code c \<noteq> None \<Longrightarrow> dispatch c ev = c"
  by simp

lemma coordinator_run_exited: "exit_code c \<noteq> None \<Longrightarrow> coordinator_run c evs = c"
  by (induction evs) (simp_all add: coordinator_run_def)

lemma dispatch_calls_stopAll:
  "exit_code c = None \<Longrightarrow> calls_stopAll ev \<Longrightarrow>
   \<exists>c'. dispatch c ev = stopAll c' \<and> workerProgress c' = workerProgress c
        \<and> count_list (console c') FinalStatistics = count_list (console c) FinalStatistics"
  by (cases ev) (auto simp: calls_stopAll_def sigint_def Let_def split: report.splits)

lemma count_console_stopAll:
  "count_list (console (stopAll c)) FinalStatistics = Suc (count_list (console c) FinalStatistics)"
  by (simp add: console_stopAll)

text \<open>The body of \<^verbatim>\<open>stopAll\<close> has no guard of its own: what keeps it from running twice
  is that its last statement ends the process.\<close>

lemma stopAll_body_twice:
  "count_list (console (stopAll (stopAll c))) FinalStatistics
     = count_list (console c) FinalStatistics + 2"
  by (simp add: count_console_stopAll)

lemma onmessage_alive_no_summary:
  "exit_code (onmessage c r) = None \<Longrightarrow>
   count_list (console (onmessage c r)) FinalStatistics = count_list (console c) FinalStatistics"
  by (cases r) (auto simp: exit_code_stopAll Let_def split: option.splits)

lemma dispatch_alive_no_summary:
  "exit_code (dispatch c ev) = None \<Longrightarrow>
   count_list (console (dispatch c ev)) FinalStatistics = count_list (console c) FinalStatistics"
  by (cases ev; cases "exit_code c")
     (auto simp: exit_code_stopAll sigint_def onerror_def progress_tick_def Let_def
                 onmessage_alive_no_summary split: if_splits)

lemma dispatch_alive_before: "exit_code (dispatch c ev) = None \<Longrightarrow> exit_code c = None"
  by (cases "exit_code c") auto

lemma coordinator_run_alive_no_summary:
  "exit_code (coordinator_run (coordinator_init v5 p n) evs) = None \<Longrightarrow>
   count_list (console (coordinator_run (coordinator_init v5 p n) evs)) FinalStatistics = 0"
proof (induction evs rule: rev_induct)
  case Nil
  then show ?case by (simp add: coordinator_run_def coordinator_init_def)
next
  case (snoc ev evs)
  from snoc.prems have alive: "exit_code (dispatch (coordinator_run (coordinator_init v5 p n) evs) ev) = None"
    by (simp add: coordinator_run_snoc)
  from dispatch_alive_before [OF alive] snoc.IH dispatch_alive_no_summary [OF alive]
  show ?case by (simp add: coordinator_run_snoc)
qed

text \<open>
  Claim C3. In any state that the coordinator reaches while the process lives, two
  events in immediate succession that both call \<^verbatim>\<open>stopAll()\<close> (a \<^verbatim>\<open>found\<close> message and
  an interrupt, in either order, or two of one kind) leave exactly one final statistics
  summary on the console: the first call ends in \<^verbatim>\<open>process.exit(0)\<close>, and the second
  event changes nothing.
\<close>

theorem stopAll_runs_once:
  assumes "exit_code (coordinator_run (coordinator_init v5 p n) evs) = None"
    and "calls_stopAll e1" and "calls_stopAll e2"
  shows "count_list (console (coordinator_run (coordinator_init v5 p n) (evs @ [e1, e2]))) FinalStatistics = 1
     \<and> coordinator_run (coordinator_init v5 p n) (evs @ [e1, e2]) = coordinator_run (coordinator_init v5 p n) (evs @ [e1])
     \<and> exit_code (coordinator_run (coordinator_init v5 p n) (evs @ [e1])) = Some 0"
proof -
  let ?c = "coordinator_run (coordinator_init v5 p n) evs"
  from dispatch_calls_stopAll [OF assms(1,2)] obtain c' where
    c': "dispatch ?c e1 = stopAll c'"
        "count_list (console c') FinalStatistics = count_list (console ?c) FinalStatistics"
    by blast
  have one: "coordinator_run (coordinator_init v5 p n) (evs @ [e1]) = stopAll c'"
    using c' by (simp add: coordinator_run_snoc)
  have "coordinator_run (coordinator_init v5 p n) (evs @ [e1, e2]) = dispatch (stopAll c') e2"
    using one coordinator_run_snoc [of "coordinator_init v5 p n" "evs @ [e1]" e2] by simp
  also have "\<dots> = stopAll c'"
    by (rule dispatch_exited) (simp add: exit_code_stopAll)
  finally have two: "coordinator_run (coordinator_init v5 p n) (evs @ [e1, e2]) = stopAll c'" .
  from coordinator_run_alive_no_summary [OF assms(1)] c'(2)
  have "count_list (console (stopAll c')) FinalStatistics = 1"
    by (simp add: count_console_stopAll)
  with one two show ?thesis by (simp add: exit_code_stopAll)
qed

theorem stopAll_runs_once_witness:
  "exit_code (coordinator_run (coordinator_init (\<lambda>name ns. name @ ns) ''p'' 1)
                [Message (Progress (Some 0) ''100000'')]) = None
   \<and> calls_stopAll (Message (Found (Some 0) ''s'' ''100003''))
   \<and> calls_stopAll SIGINT
   \<and> count_list (console (coordinator_run (coordinator_init (\<lambda>name ns. name @ ns) ''p'' 1)
        ([Message (Progress (Some 0) ''100000'')]
          @ [Message (Found (Some 0) ''s'' ''100003''), SIGINT]))) FinalStatistics = 1"
proof -
  have n: "BigInt ''100000'' = Some 100000" "BigInt ''100003'' = Some 100003"
    by (simp_all add: BigInt_def parse_decimal_def is_digit_def digit_val_def)
  have a: "exit_code (coordinator_run (coordinator_init (\<lambda>name ns. name @ ns) ''p'' 1)
                [Message (Progress (Some 0) ''100000'')]) = None"
    by (simp add: coordinator_run_def coordinator_init_def n)
  have b: "calls_stopAll (Message (Found (Some 0) ''s'' ''100003''))"
    by (simp add: calls_stopAll_def n)
  have c: "calls_stopAll SIGINT"
    by (simp add: calls_stopAll_def)
  from stopAll_runs_once [OF a b c, THEN conjunct1] a b c show ?thesis by simp
qed

text \<open>
  Claim C4. Once \<^verbatim>\<open>stopAll()\<close> has run, every worker is terminated and the process has
  exited: whatever events follow (messages of any worker, ticks, interrupts), the
  state of the coordinator stays what \<^verbatim>\<open>stopAll()\<close> left, in particular the progress
  table, the found flag and the console; and no turn of the whole process changes
  anything.
\<close>

theorem nothing_after_stopAll:
  "coordinator_run (stopAll c) evs = stopAll c
   \<and> workerProgress (coordinator_run (stopAll c) evs) = workerProgress c
   \<and> found (coordinator_run (stopAll c) evs) = found c
   \<and> console (coordinator_run (stopAll c) evs) = console (stopAll c)
   \<and> workers (stopAll c) = replicate (length (workers c)) False
   \<and> sys_run v5 gens (s\<lparr>coord := stopAll (coord s)\<rparr>) acts = s\<lparr>coord := stopAll (coord s)\<rparr>"
proof -
  have r: "coordinator_run (stopAll c) evs = stopAll c"
    by (rule coordinator_run_exited) (simp add: exit_code_stopAll)
  have "sys_run v5 gens (s\<lparr>coord := stopAll (coord s)\<rparr>) acts = s\<lparr>coord := stopAll (coord s)\<rparr>"
    by (induction acts) (simp_all add: sys_run_def exit_code_stopAll)
  with r show ?thesis
    by (simp add: workerProgress_stopAll found_stopAll workers_stopAll)
qed

lemma exit_code_onmessage:
  "exit_code (onmessage c r) = exit_code c \<or> exit_code (onmessage c r) = Some 0"
  by (cases r) (auto simp: exit_code_stopAll Let_def split: option.splits)

lemma exit_code_dispatch:
  "exit_code (dispatch c ev) = exit_code c \<or> exit_code (dispatch c ev) = Some 0"
proof (cases ev)
  case (Message r)
  with exit_code_onmessage [of c r] show ?thesis by auto
next
  case (Error i)
  then show ?thesis by (simp add: onerror_def)
next
  case Tick
  then show ?thesis by (simp add: progress_tick_def Let_def)
next
  case SIGINT
  then show ?thesis by (simp add: sigint_def exit_code_stopAll)
qed

lemma array_set_other:
  "j \<noteq> i \<Longrightarrow> j < length xs \<Longrightarrow> array_set xs (Some i) v ! j = xs ! j"
  by (simp add: nth_append)

lemma array_set_same: "array_set xs (Some i) v ! i = Some v"
  by (simp add: nth_append)

text \<open>
  Claim C10. The handler of worker messages leaves the progress table as it is on a
  \<^verbatim>\<open>found\<close> message; on a \<^verbatim>\<open>progress\<close> message it changes no entry other than the one
  at the \<^verbatim>\<open>workerId\<close> of the message, which receives the count sent. The total that
  \<^verbatim>\<open>stopAll()\<close> computes and prints after a \<^verbatim>\<open>found\<close> message is the sum of the table
  before the message, so the count in the \<^verbatim>\<open>found\<close> message is not part of it.
\<close>

theorem only_progress_writes_the_table:
  "workerProgress (onmessage c (Found wid foundPrivate chk)) = workerProgress c
   \<and> workerProgress (onmessage c (Progress None chk)) = workerProgress c
   \<and> (\<forall>j. j \<noteq> i \<and> j < length (workerProgress c) \<longrightarrow>
          workerProgress (onmessage c (Progress (Some i) chk)) ! j = workerProgress c ! j)
   \<and> (i < length (workerProgress c) \<longrightarrow>
          workerProgress (onmessage c (Progress (Some i) (toString x))) = (workerProgress c)[i := Some x])
   \<and> totalChecked (onmessage c (Found wid foundPrivate (toString x))) = reduce_sum (workerProgress c)
   \<and> TotalChecked (reduce_sum (workerProgress c))
        \<in> set (console (onmessage c (Found wid foundPrivate (toString x))))"
proof -
  have 1: "workerProgress (onmessage c (Found wid foundPrivate chk)) = workerProgress c"
    by (simp add: Let_def workerProgress_stopAll split: option.splits)
  have 2: "workerProgress (onmessage c (Progress None chk)) = workerProgress c"
    by (simp split: option.splits)
  have 3: "\<forall>j. j \<noteq> i \<and> j < length (workerProgress c) \<longrightarrow>
          workerProgress (onmessage c (Progress (Some i) chk)) ! j = workerProgress c ! j"
    by (cases "BigInt chk") (simp_all add: nth_append)
  have 4: "i < length (workerProgress c) \<longrightarrow>
          workerProgress (onmessage c (Progress (Some i) (toString x))) = (workerProgress c)[i := Some x]"
    by (simp add: BigInt_toString)
  have 5: "totalChecked (onmessage c (Found wid foundPrivate (toString x))) = reduce_sum (workerProgress c)"
    by (simp add: BigInt_toString Let_def totalChecked_stopAll)
  have 6: "TotalChecked (reduce_sum (workerProgress c))
        \<in> set (console (onmessage c (Found wid foundPrivate (toString x))))"
    by (simp add: BigInt_toString Let_def console_stopAll)
  from 1 2 3 4 5 6 show ?thesis by blast
qed

theorem only_progress_writes_the_table_witness:
  "(0::nat) \<noteq> 1 \<and> 0 < length (workerProgress (coordinator_init (\<lambda>name ns. name @ ns) ''p'' 2))
   \<and> workerProgress (onmessage (coordinator_init (\<lambda>name ns. name @ ns) ''p'' 2)
                        (Progress (Some 1) ''100000'')) ! 0 = Some 0
   \<and> 1 < length (workerProgress (coordinator_init (\<lambda>name ns. name @ ns) ''p'' 2))
   \<and> workerProgress (onmessage (coordinator_init (\<lambda>name ns. name @ ns) ''p'' 2)
                        (Progress (Some 1) (toString 100000))) = [Some 0, Some 100000]"
proof -
  let ?init = "coordinator_init (\<lambda>name ns. name @ ns) ''p'' 2"
  have l: "workerProgress ?init = [Some 0, Some 0]"
    by (simp add: coordinator_init_def numeral_2_eq_2)
  note t = only_progress_writes_the_table [of ?init "Some 1" "''s''" "''100000''" 1 100000]
  from t [THEN conjunct2, THEN conjunct2, THEN conjunct1] l
  have "workerProgress (onmessage ?init (Progress (Some 1) ''100000'')) ! 0 = Some 0"
    by simp
  moreover from t [THEN conjunct2, THEN conjunct2, THEN conjunct2, THEN conjunct1] l
  have "workerProgress (onmessage ?init (Progress (Some 1) (toString 100000))) = [Some 0, Some 100000]"
    by simp
  ultimately show ?thesis using l by simp
qed

section \<open>Runs of the whole process\<close>

lemma progress_vals_append:
  "progress_vals (rs @ rs') = progress_vals rs @ progress_vals rs'"
  by (induction rs rule: progress_vals.induct) (auto split: option.splits)

lemma last_progress_snoc_Progress:
  "last_progress (rs @ [Progress wid (toString v)]) = v"
  by (simp add: last_progress_def progress_vals_append BigInt_toString)

lemma last_progress_snoc_Found:
  "last_progress (rs @ [Found wid c chk]) = last_progress rs"
  by (simp add: last_progress_def progress_vals_append)

lemma sorted_le_last: "sorted xs \<Longrightarrow> z \<in> set xs \<Longrightarrow> z \<le> (last xs :: int)"
  by (induction xs) auto

lemma sorted_snoc_last:
  assumes "sorted (x # xs)" and "last (x # xs) \<le> (y::int)"
  shows "sorted (x # xs @ [y])"
proof -
  have "\<forall>z \<in> set (x # xs). z \<le> y"
    using sorted_le_last [OF assms(1)] assms(2) by force
  with assms(1) have "sorted ((x # xs) @ [y])" unfolding sorted_append by simp
  then show ?thesis by simp
qed

lemma run_closure_cases:
  obtains cl' d' where
      "run_closure v5 gen w cl
         = w\<lparr>timers := timers w @ [cl'], drawn := d',
              posted := posted w @ [Progress (cl_workerId cl) (toString (checked cl'))]\<rparr>"
      "checked cl \<le> checked cl'" "cl_targetPublic cl' = cl_targetPublic cl"
      "cl_workerId cl' = cl_workerId cl"
  | c chk d' where
      "run_closure v5 gen w cl
         = w\<lparr>timers := timers w, drawn := d',
              posted := posted w @ [Found (cl_workerId cl) c (toString chk)]\<rparr>"
      "Some (v5 c c) = cl_targetPublic cl"
proof -
  obtain cl' d' msg again where cb: "checkBatch v5 gen cl (drawn w) = (cl', d', msg, again)"
    by (cases "checkBatch v5 gen cl (drawn w)") auto
  note r = checkBatch_result [OF cb]
  show thesis
  proof (cases again)
    case True
    with r cb have "run_closure v5 gen w cl
         = w\<lparr>timers := timers w @ [cl'], drawn := d',
              posted := posted w @ [Progress (cl_workerId cl) (toString (checked cl'))]\<rparr>"
      by (simp add: run_closure_def)
    moreover from r have "checked cl \<le> checked cl'" by simp
    ultimately show ?thesis using r that(1) by blast
  next
    case False
    with r obtain c where c: "msg = Found (cl_workerId cl) c (toString (checked cl'))"
      "Some (v5 c c) = cl_targetPublic cl" by auto
    with False cb have "run_closure v5 gen w cl
         = w\<lparr>timers := timers w, drawn := d',
              posted := posted w @ [Found (cl_workerId cl) c (toString (checked cl'))]\<rparr>"
      by (simp add: run_closure_def)
    with c show ?thesis using that(2) by blast
  qed
qed

lemma run_closure_ok:
  assumes reps: "list_all (report_ok v5 tp i) (posted w)"
    and srt: "sorted (0 # progress_vals (posted w))"
    and cl: "closure_ok tp i (last_progress (posted w)) cl"
    and idle: "timers w = []"
  shows "worker_ok v5 tp i (run_closure v5 gen w cl)"
proof (cases rule: run_closure_cases [of v5 gen w cl])
  case (1 cl' d')
  from cl have tp: "cl_targetPublic cl = Some tp" and wid: "cl_workerId cl = Some i"
    and lo: "last_progress (posted w) \<le> checked cl"
    by (simp_all add: closure_ok_def)
  have "last (0 # progress_vals (posted w)) \<le> checked cl'"
    using lo 1(2) by (simp add: last_progress_def)
  from sorted_snoc_last [OF srt this]
  have "sorted (0 # progress_vals (posted w @ [Progress (Some i) (toString (checked cl'))]))"
    by (simp add: progress_vals_append BigInt_toString)
  moreover have "closure_ok tp i
      (last_progress (posted w @ [Progress (Some i) (toString (checked cl'))])) cl'"
    using 1(3,4) tp wid by (simp add: closure_ok_def last_progress_snoc_Progress)
  ultimately show ?thesis
    using reps idle wid by (simp add: worker_ok_def 1(1) BigInt_toString)
next
  case (2 c chk d')
  from cl have tp: "cl_targetPublic cl = Some tp" and wid: "cl_workerId cl = Some i"
    by (simp_all add: closure_ok_def)
  from 2(2) tp have "v5 c c = tp" by simp
  then show ?thesis
    using reps srt idle wid
    by (simp add: worker_ok_def 2(1) BigInt_toString progress_vals_append)
qed

lemma posted_run_closure:
  "\<exists>msg. posted (run_closure v5 gen w cl) = posted w @ [msg]"
  by (cases rule: run_closure_cases [of v5 gen w cl]) simp_all

lemma worker_ok_Timeout:
  assumes "worker_ok v5 tp i w"
  shows "worker_ok v5 tp i (worker_step v5 gen w Timeout)"
proof (cases "timers w")
  case Nil
  with assms show ?thesis by simp
next
  case (Cons cl rest)
  with assms have rest: "rest = []" by (simp add: worker_ok_def)
  from assms Cons have "closure_ok tp i (last_progress (posted (w\<lparr>timers := []\<rparr>))) cl"
    by (simp add: worker_ok_def)
  moreover from assms have "list_all (report_ok v5 tp i) (posted (w\<lparr>timers := []\<rparr>))"
    "sorted (0 # progress_vals (posted (w\<lparr>timers := []\<rparr>)))"
    by (simp_all add: worker_ok_def)
  ultimately have "worker_ok v5 tp i (run_closure v5 gen (w\<lparr>timers := []\<rparr>) cl)"
    by (intro run_closure_ok) simp_all
  with Cons rest show ?thesis by simp
qed

lemma worker_ok_start:
  assumes "timers w = []" "posted w = []"
  shows "worker_ok v5 tp i (worker_step v5 gen w (OnMessage (WorkerMessage (Some tp) (Some i))))"
proof -
  let ?cl = "\<lparr>cl_targetPublic = Some tp, cl_workerId = Some i, checked = 0, batchCount = 0\<rparr>"
  have "worker_ok v5 tp i (run_closure v5 gen w ?cl)"
    using assms by (intro run_closure_ok) (simp_all add: closure_ok_def last_progress_def)
  then show ?thesis by simp
qed

lemma posted_worker_step:
  "\<exists>ms. posted (worker_step v5 gen w ev) = posted w @ ms"
proof (cases ev)
  case (OnMessage m)
  then show ?thesis using posted_run_closure by (metis worker_step.simps(1))
next
  case Timeout
  show ?thesis
  proof (cases "timers w")
    case Nil
    with Timeout show ?thesis by simp
  next
    case (Cons cl rest)
    from posted_run_closure [of v5 gen "w\<lparr>timers := rest\<rparr>" cl] Timeout Cons
    show ?thesis by auto
  qed
qed

lemma foldl_reduce:
  "foldl (\<lambda>a b. case b of None \<Rightarrow> a | Some v \<Rightarrow> a + v) a xs
     = a + sum_list (map (\<lambda>b. case b of None \<Rightarrow> 0 | Some v \<Rightarrow> v) xs)"
  by (induction xs arbitrary: a) (auto simp: add.assoc split: option.splits)

lemma reduce_sum_sum_list:
  "reduce_sum xs = sum_list (map (\<lambda>b. case b of None \<Rightarrow> 0 | Some v \<Rightarrow> v) xs)"
  by (simp add: reduce_sum_def foldl_reduce)

lemma reduce_sum_update:
  "i < length xs \<Longrightarrow> xs ! i = Some p \<Longrightarrow> reduce_sum (xs[i := Some v]) = reduce_sum xs - p + v"
proof (induction xs arbitrary: i)
  case Nil
  then show ?case by simp
next
  case (Cons x xs)
  then show ?case by (cases i) (auto simp: reduce_sum_sum_list)
qed

lemma sys_inv_init: "sys_inv v5 p n (runBenchmark v5 p n)"
  by (simp add: sys_inv_def runBenchmark_def coordinator_init_def slot_ok_def worker_ok_def
      worker_init_def last_progress_def)

lemma slot_ok_Start:
  assumes "slot_ok v5 tp i w box rcv e" "box \<noteq> []"
  shows "slot_ok v5 tp i (worker_step v5 gen w (OnMessage (hd box))) (tl box) rcv e"
proof -
  from assms have box: "box = [WorkerMessage (Some tp) (Some i)]" and idle: "timers w = []"
    and none: "posted w = []" and e: "e = Some (last_progress (take rcv (posted w)))"
    and rcv: "rcv \<le> length (posted w)"
    by (auto simp: slot_ok_def)
  from rcv none have "rcv = 0" by simp
  with worker_ok_start [OF idle none, of v5 tp i gen] box none e show ?thesis
    by (simp add: slot_ok_def)
qed

lemma slot_ok_Fire:
  assumes "slot_ok v5 tp i w box rcv e"
  shows "slot_ok v5 tp i (worker_step v5 gen w Timeout) box rcv e"
proof -
  from assms have ok: "worker_ok v5 tp i w" and rcv: "rcv \<le> length (posted w)"
    and e: "e = Some (last_progress (take rcv (posted w)))"
    and box: "box = [] \<or> box = [WorkerMessage (Some tp) (Some i)] \<and> timers w = [] \<and> posted w = []"
    by (auto simp: slot_ok_def)
  obtain ms where ms: "posted (worker_step v5 gen w Timeout) = posted w @ ms"
    using posted_worker_step by blast
  from box have "box = [] \<or> box = [WorkerMessage (Some tp) (Some i)]
      \<and> timers (worker_step v5 gen w Timeout) = [] \<and> posted (worker_step v5 gen w Timeout) = []"
    by auto
  with worker_ok_Timeout [OF ok] rcv e ms show ?thesis
    by (simp add: slot_ok_def)
qed

text \<open>What the receipt of the next message of a worker does to its entry.\<close>

lemma deliver_entry:
  assumes ok: "slot_ok v5 tp i w box rcv e" and more: "rcv < length (posted w)"
    and i: "i < length (workerProgress c)" and e: "workerProgress c ! i = e"
  shows "\<exists>p v. e = Some p \<and> p \<le> v
           \<and> workerProgress (onmessage c (posted w ! rcv)) = (workerProgress c)[i := Some v]
           \<and> slot_ok v5 tp i w box (Suc rcv) (Some v)
           \<and> length (workers (onmessage c (posted w ! rcv))) = length (workers c)"
proof -
  let ?r = "posted w ! rcv"
  let ?before = "take rcv (posted w)"
  from ok have wok: "worker_ok v5 tp i w"
    and ep: "e = Some (last_progress ?before)"
    and box: "box = [] \<or> box = [WorkerMessage (Some tp) (Some i)] \<and> timers w = [] \<and> posted w = []"
    by (auto simp: slot_ok_def)
  from wok more have rok: "report_ok v5 tp i ?r"
    by (simp add: worker_ok_def list_all_length)
  from wok have srt: "sorted (0 # progress_vals (posted w))" by (simp add: worker_ok_def)
  have split: "posted w = ?before @ ?r # drop (Suc rcv) (posted w)"
    using more by (rule id_take_nth_drop)
  have tk: "take (Suc rcv) (posted w) = ?before @ [?r]"
    using more by (rule take_Suc_conv_app_nth)
  show ?thesis
  proof (cases ?r)
    case (Progress wid chk)
    with rok obtain v where wid: "wid = Some i" and v: "BigInt chk = Some v" by auto
    have "sorted ((0 # progress_vals ?before) @ v # progress_vals (drop (Suc rcv) (posted w)))"
      using srt Progress v by (subst (asm) split) (simp add: progress_vals_append)
    then have "\<forall>x \<in> set (0 # progress_vals ?before). x \<le> v"
      unfolding sorted_append by simp
    then have le: "last_progress ?before \<le> v"
      unfolding last_progress_def using last_in_set [of "0 # progress_vals ?before"] by blast
    have "last_progress (take (Suc rcv) (posted w)) = v"
      unfolding tk using Progress v by (simp add: last_progress_def progress_vals_append)
    with wok more box have "slot_ok v5 tp i w box (Suc rcv) (Some v)"
      by (simp add: slot_ok_def)
    moreover have "workerProgress (onmessage c ?r) = (workerProgress c)[i := Some v]"
      using Progress wid v i by simp
    moreover have "length (workers (onmessage c ?r)) = length (workers c)"
      using Progress v by simp
    ultimately show ?thesis using ep le by blast
  next
    case (Found wid cand chk)
    from rok Found obtain x where x: "BigInt chk = Some x" by auto
    have "last_progress (take (Suc rcv) (posted w)) = last_progress ?before"
      unfolding tk using Found by (simp add: last_progress_def progress_vals_append)
    with wok more box have "slot_ok v5 tp i w box (Suc rcv) (Some (last_progress ?before))"
      by (simp add: slot_ok_def)
    moreover have "(workerProgress c)[i := workerProgress c ! i] = workerProgress c"
      by simp
    then have "workerProgress (onmessage c ?r) = (workerProgress c)[i := Some (last_progress ?before)]"
      using Found x e ep by (simp add: Let_def stopAll_def)
    moreover have "length (workers (onmessage c ?r)) = length (workers c)"
      using Found x by (simp add: Let_def stopAll_def)
    ultimately show ?thesis using ep by blast
  qed
qed

lemma sys_step_exited: "exit_code (coord s) \<noteq> None \<Longrightarrow> sys_step v5 gens s a = s"
  by simp

lemma dispatch_Tick_frame:
  "workerProgress (dispatch c Tick) = workerProgress c
   \<and> length (workers (dispatch c Tick)) = length (workers c)"
  by (simp add: progress_tick_def Let_def)

lemma dispatch_SIGINT_frame:
  "workerProgress (dispatch c SIGINT) = workerProgress c
   \<and> length (workers (dispatch c SIGINT)) = length (workers c)"
  by (simp add: sigint_def stopAll_def Let_def)

lemma sys_inv_coord_frame:
  assumes "sys_inv v5 p n s" "workerProgress c' = workerProgress (coord s)"
    "length (workers c') = length (workers (coord s))"
  shows "sys_inv v5 p n (s\<lparr>coord := c'\<rparr>)"
  using assms by (simp add: sys_inv_def)

lemma sys_inv_worker_turn:
  assumes inv: "sys_inv v5 p n s" and i: "i < n"
    and slot: "slot_ok v5 (targetPublic v5 p) i w' box' (received s ! i) (workerProgress (coord s) ! i)"
  shows "sys_inv v5 p n (s\<lparr>pool := (pool s)[i := w'], inbox := (inbox s)[i := box']\<rparr>)"
  unfolding sys_inv_def
proof (intro conjI allI impI)
  fix j assume j: "j < n"
  let ?s' = "s\<lparr>pool := (pool s)[i := w'], inbox := (inbox s)[i := box']\<rparr>"
  show "slot_ok v5 (targetPublic v5 p) j (pool ?s' ! j) (inbox ?s' ! j) (received ?s' ! j)
          (workerProgress (coord ?s') ! j)"
  proof (cases "j = i")
    case True
    with inv i slot show ?thesis by (simp add: sys_inv_def)
  next
    case False
    with inv j show ?thesis by (simp add: sys_inv_def)
  qed
qed (use inv in \<open>simp_all add: sys_inv_def\<close>)

lemma sys_step_inv_mono:
  assumes inv: "sys_inv v5 p n s"
  shows "sys_inv v5 p n (sys_step v5 gens s a)
       \<and> reduce_sum (workerProgress (coord s))
           \<le> reduce_sum (workerProgress (coord (sys_step v5 gens s a)))"
proof (cases "exit_code (coord s)")
  case (Some code)
  with inv show ?thesis by simp
next
  case None
  from inv have len: "length (pool s) = n" "length (inbox s) = n" "length (received s) = n"
    "length (workerProgress (coord s)) = n" "length (workers (coord s)) = n"
    and slots: "\<And>i. i < n \<Longrightarrow> slot_ok v5 (targetPublic v5 p) i (pool s ! i) (inbox s ! i)
                  (received s ! i) (workerProgress (coord s) ! i)"
    by (simp_all add: sys_inv_def)
  show ?thesis
  proof (cases a)
    case (Start i)
    show ?thesis
    proof (cases "i < n \<and> workers (coord s) ! i \<and> inbox s ! i \<noteq> []")
      case True
      then have i: "i < n" and box: "inbox s ! i \<noteq> []" by simp_all
      from slot_ok_Start [OF slots [OF i] box]
      have "sys_inv v5 p n (s\<lparr>pool := (pool s)[i := worker_step v5 (gens i) (pool s ! i)
                                               (OnMessage (hd (inbox s ! i)))],
                        inbox := (inbox s)[i := tl (inbox s ! i)]\<rparr>)"
        by (rule sys_inv_worker_turn [OF inv i])
      with True None Start len show ?thesis by simp
    next
      case False
      with None Start len inv show ?thesis by auto
    qed
  next
    case (Fire i)
    show ?thesis
    proof (cases "i < n \<and> workers (coord s) ! i")
      case True
      then have i: "i < n" by simp
      from slot_ok_Fire [OF slots [OF i]]
      have "sys_inv v5 p n (s\<lparr>pool := (pool s)[i := worker_step v5 (gens i) (pool s ! i) Timeout],
                        inbox := (inbox s)[i := inbox s ! i]\<rparr>)"
        by (rule sys_inv_worker_turn [OF inv i])
      moreover have "(inbox s)[i := inbox s ! i] = inbox s" by simp
      ultimately show ?thesis using True None Fire len by simp
    next
      case False
      with None Fire len inv show ?thesis by auto
    qed
  next
    case (Deliver i)
    show ?thesis
    proof (cases "i < n \<and> received s ! i < length (posted (pool s ! i))")
      case True
      then have i: "i < n" and more: "received s ! i < length (posted (pool s ! i))" by simp_all
      let ?r = "posted (pool s ! i) ! (received s ! i)"
      let ?c' = "onmessage (coord s) ?r"
      from i len have i': "i < length (workerProgress (coord s))" by simp
      from deliver_entry [OF slots [OF i] more i' refl] obtain q v where
        e: "workerProgress (coord s) ! i = Some q" and le: "q \<le> v"
        and wp: "workerProgress ?c' = (workerProgress (coord s))[i := Some v]"
        and slot: "slot_ok v5 (targetPublic v5 p) i (pool s ! i) (inbox s ! i)
                     (Suc (received s ! i)) (Some v)"
        and wl: "length (workers ?c') = length (workers (coord s))"
        by blast
      let ?s' = "s\<lparr>coord := ?c', received := (received s)[i := Suc (received s ! i)]\<rparr>"
      have step: "sys_step v5 gens s a = ?s'"
        using True None Deliver len by simp
      have "sys_inv v5 p n ?s'"
        unfolding sys_inv_def
      proof (intro conjI allI impI)
        fix j assume j: "j < n"
        show "slot_ok v5 (targetPublic v5 p) j (pool ?s' ! j) (inbox ?s' ! j) (received ?s' ! j)
                (workerProgress (coord ?s') ! j)"
        proof (cases "j = i")
          case True
          with slot i len wp show ?thesis by simp
        next
          case False
          with slots [OF j] wp show ?thesis by simp
        qed
      qed (use len wp wl in simp_all)
      moreover have "reduce_sum (workerProgress (coord s)) \<le> reduce_sum (workerProgress ?c')"
        unfolding wp using reduce_sum_update [OF i' e, of v] le by simp
      ultimately show ?thesis unfolding step by simp
    next
      case False
      with None Deliver len inv show ?thesis by auto
    qed
  next
    case Interval
    have "sys_step v5 gens s a = s\<lparr>coord := dispatch (coord s) Tick\<rparr>"
      using None Interval by simp
    with sys_inv_coord_frame [OF inv] dispatch_Tick_frame [of "coord s"]
    show ?thesis by simp
  next
    case Interrupt
    have "sys_step v5 gens s a = s\<lparr>coord := dispatch (coord s) SIGINT\<rparr>"
      using None Interrupt by simp
    with sys_inv_coord_frame [OF inv] dispatch_SIGINT_frame [of "coord s"]
    show ?thesis by simp
  qed
qed

lemma sys_run_snoc: "sys_run v5 gens s (acts @ [a]) = sys_step v5 gens (sys_run v5 gens s acts) a"
  by (simp add: sys_run_def)

lemma sys_run_append:
  "sys_run v5 gens s (acts @ acts') = sys_run v5 gens (sys_run v5 gens s acts) acts'"
  by (simp add: sys_run_def)

lemma sys_run_inv:
  "sys_inv v5 p n s \<Longrightarrow> sys_inv v5 p n (sys_run v5 gens s acts)"
proof (induction acts rule: rev_induct)
  case Nil
  then show ?case by (simp add: sys_run_def)
next
  case (snoc a acts)
  then show ?case
    unfolding sys_run_snoc using sys_step_inv_mono by blast
qed

lemma sys_run_mono:
  "sys_inv v5 p n s \<Longrightarrow>
   reduce_sum (workerProgress (coord s))
     \<le> reduce_sum (workerProgress (coord (sys_run v5 gens s acts)))"
proof (induction acts rule: rev_induct)
  case Nil
  then show ?case by (simp add: sys_run_def)
next
  case (snoc a acts)
  have "sys_inv v5 p n (sys_run v5 gens s acts)"
    using snoc.prems by (rule sys_run_inv)
  from sys_step_inv_mono [OF this, of gens a] snoc
  show ?case unfolding sys_run_snoc by simp
qed

text \<open>
  Claim C5. Along every run of the process, from the state that \<^verbatim>\<open>runBenchmark\<close> sets
  up and under any interleaving of worker turns, message receipts, ticks and the
  interrupt, the sum of the progress table never decreases. The sum is the plain sum of
  the entries; each tick of the interval (while running) and \<^verbatim>\<open>stopAll()\<close> assign to
  \<^verbatim>\<open>totalChecked\<close> that sum, computed over the table as it is then, and print it.
\<close>

theorem progress_sum_never_decreases:
  "reduce_sum (workerProgress (coord (sys_run v5 gens (runBenchmark v5 p n) acts)))
     \<le> reduce_sum (workerProgress (coord (sys_run v5 gens (runBenchmark v5 p n) (acts @ acts'))))
   \<and> reduce_sum xs = sum_list (map (\<lambda>b. case b of None \<Rightarrow> 0 | Some v \<Rightarrow> v) xs)
   \<and> totalChecked (progress_tick c) = (if running c then reduce_sum (workerProgress c) else totalChecked c)
   \<and> console (progress_tick c)
       = console c @ (if running c then [ProgressLine (reduce_sum (workerProgress c))] else [])
   \<and> totalChecked (stopAll c) = reduce_sum (workerProgress c)
   \<and> console (stopAll c)
       = console c
         @ [Blank, Blank, FinalStatistics, TotalChecked (reduce_sum (workerProgress c)), TotalTime, AvgSpeed]
         @ (if \<not> found c then [NotFound] else []) @ [Blank]"
proof -
  have "sys_inv v5 p n (sys_run v5 gens (runBenchmark v5 p n) acts)"
    using sys_inv_init by (rule sys_run_inv)
  from sys_run_mono [OF this, of gens acts']
  have "reduce_sum (workerProgress (coord (sys_run v5 gens (runBenchmark v5 p n) acts)))
     \<le> reduce_sum (workerProgress (coord (sys_run v5 gens (runBenchmark v5 p n) (acts @ acts'))))"
    by (simp add: sys_run_append)
  then show ?thesis
    by (simp add: reduce_sum_sum_list [symmetric] progress_tick_def Let_def totalChecked_stopAll
        console_stopAll)
qed

text \<open>
  Claim C1. The public value of the target is \<open>derive\<close> of the private one, fixed before
  any worker is created. In every run of the process, every \<^verbatim>\<open>found\<close> message that a
  worker of the pool has posted carries a candidate whose \<open>derive\<close> is the public value of
  the target (and carries the id of that worker).
\<close>

theorem found_candidate_derives_target:
  assumes "i < n"
    and "Found wid c chk \<in> set (posted (pool (sys_run v5 gens (runBenchmark v5 p n) acts) ! i))"
  shows "derive v5 c = targetPublic v5 p \<and> targetPublic v5 p = derive v5 p \<and> wid = Some i"
proof -
  have "sys_inv v5 p n (sys_run v5 gens (runBenchmark v5 p n) acts)"
    using sys_inv_init by (rule sys_run_inv)
  with assms(1)
  have "list_all (report_ok v5 (targetPublic v5 p) i)
          (posted (pool (sys_run v5 gens (runBenchmark v5 p n) acts) ! i))"
    by (simp add: sys_inv_def slot_ok_def worker_ok_def)
  with assms(2) have "report_ok v5 (targetPublic v5 p) i (Found wid c chk)"
    by (auto simp: list_all_iff)
  then show ?thesis by (simp add: derive_def targetPublic_def)
qed

theorem found_candidate_derives_target_witness:
  "Found (Some 0) ''s'' ''1''
     \<in> set (posted (pool (sys_run (\<lambda>name ns. name @ ns) (\<lambda>i k. ''s'')
                             (runBenchmark (\<lambda>name ns. name @ ns) ''s'' 1) [Start 0]) ! 0))
   \<and> derive (\<lambda>name ns. name @ ns) ''s'' = targetPublic (\<lambda>name ns. name @ ns) ''s''"
proof -
  let ?v5 = "\<lambda>name ns :: string. name @ ns"
  have w: "run_closure ?v5 (\<lambda>k. ''s'') worker_init
         \<lparr>cl_targetPublic = Some ''ss'', cl_workerId = Some 0, checked = 0, batchCount = 0\<rparr>
      = \<lparr>timers = [], drawn = 1, posted = [Found (Some 0) ''s'' ''1'']\<rparr>"
    by (simp add: worker_init_def run_closure_def checkBatch_def batch_loop.simps [of _ _ _ 0]
        BATCH_SIZE_def toString_def decimal.simps digit_char_def)
  have r: "runBenchmark ?v5 ''s'' 1
      = \<lparr>coord = coordinator_init ?v5 ''s'' 1, pool = [worker_init],
         inbox = [[WorkerMessage (Some ''ss'') (Some 0)]], received = [0]\<rparr>"
    by (simp add: runBenchmark_def targetPublic_def)
  have s1: "sys_step ?v5 (\<lambda>i k. ''s'')
      \<lparr>coord = coordinator_init ?v5 ''s'' 1, pool = [worker_init],
         inbox = [[WorkerMessage (Some ''ss'') (Some 0)]], received = [0]\<rparr> (Start 0)
    =  \<lparr>coord = coordinator_init ?v5 ''s'' 1,
         pool = [run_closure ?v5 (\<lambda>k. ''s'') worker_init
         \<lparr>cl_targetPublic = Some ''ss'', cl_workerId = Some 0, checked = 0, batchCount = 0\<rparr>],
         inbox = [[]], received = [0]\<rparr>"
    by (simp add: coordinator_init_def)
  have a: "(0::nat) < 1" by simp
  have b: "Found (Some 0) ''s'' ''1''
     \<in> set (posted (pool (sys_run ?v5 (\<lambda>i k. ''s'') (runBenchmark ?v5 ''s'' 1) [Start 0]) ! 0))"
    unfolding sys_run_def r foldl.simps s1 w by simp
  from found_candidate_derives_target [OF a b, THEN conjunct1] b show ?thesis by blast
qed

section \<open>The workers of the pool\<close>

lemma started_Suc: "started v5 gen tp i (Suc k) = worker_step v5 gen (started v5 gen tp i k) Timeout"
proof -
  have "OnMessage (WorkerMessage (Some tp) (Some i)) # replicate (Suc k) Timeout
        = (OnMessage (WorkerMessage (Some tp) (Some i)) # replicate k Timeout) @ [Timeout]"
    by (simp add: replicate_append_same)
  then show ?thesis unfolding started_def by (simp only: worker_run_snoc)
qed

lemma started_0:
  "started v5 gen tp i 0 = worker_step v5 gen worker_init (OnMessage (WorkerMessage (Some tp) (Some i)))"
  by (simp add: started_def worker_run_def)

lemma slot_run_Start:
  assumes "slot_run v5 gen tp i w box" "box \<noteq> []"
  shows "slot_run v5 gen tp i (worker_step v5 gen w (OnMessage (hd box))) (tl box)"
  using assms started_0 [of v5 gen tp i, symmetric] by (auto simp: slot_run_def)

lemma slot_run_Fire:
  assumes "slot_run v5 gen tp i w box"
  shows "slot_run v5 gen tp i (worker_step v5 gen w Timeout) box"
proof (cases "box = []")
  case True
  with assms obtain k where "w = started v5 gen tp i k" by (auto simp: slot_run_def)
  then have "worker_step v5 gen w Timeout = started v5 gen tp i (Suc k)"
    by (simp add: started_Suc)
  with True show ?thesis unfolding slot_run_def by auto
next
  case False
  with assms show ?thesis by (simp add: slot_run_def worker_init_def)
qed

lemma pool_run_init: "pool_run v5 gens p n (runBenchmark v5 p n)"
  by (simp add: pool_run_def runBenchmark_def slot_run_def)

lemma pool_run_turn:
  assumes inv: "pool_run v5 gens p n s" and i: "i < n"
    and slot: "slot_run v5 (gens i) (targetPublic v5 p) i w' box'"
  shows "pool_run v5 gens p n (s\<lparr>pool := (pool s)[i := w'], inbox := (inbox s)[i := box']\<rparr>)"
  unfolding pool_run_def
proof (intro conjI allI impI)
  fix j assume j: "j < n"
  let ?s' = "s\<lparr>pool := (pool s)[i := w'], inbox := (inbox s)[i := box']\<rparr>"
  show "slot_run v5 (gens j) (targetPublic v5 p) j (pool ?s' ! j) (inbox ?s' ! j)"
  proof (cases "j = i")
    case True
    with inv i slot show ?thesis by (simp add: pool_run_def)
  next
    case False
    with inv j show ?thesis by (simp add: pool_run_def)
  qed
qed (use inv in \<open>simp_all add: pool_run_def\<close>)

lemma pool_run_step:
  assumes inv: "pool_run v5 gens p n s"
  shows "pool_run v5 gens p n (sys_step v5 gens s a)"
proof (cases "exit_code (coord s)")
  case (Some code)
  with inv show ?thesis by simp
next
  case None
  from inv have len: "length (pool s) = n" "length (inbox s) = n"
    and slots: "\<And>i. i < n \<Longrightarrow> slot_run v5 (gens i) (targetPublic v5 p) i (pool s ! i) (inbox s ! i)"
    by (simp_all add: pool_run_def)
  show ?thesis
  proof (cases a)
    case (Start i)
    show ?thesis
    proof (cases "i < n \<and> i < length (workers (coord s)) \<and> workers (coord s) ! i \<and> inbox s ! i \<noteq> []")
      case True
      then have i: "i < n" and box: "inbox s ! i \<noteq> []" by simp_all
      from slot_run_Start [OF slots [OF i] box]
      have "pool_run v5 gens p n (s\<lparr>pool := (pool s)[i := worker_step v5 (gens i) (pool s ! i)
                                               (OnMessage (hd (inbox s ! i)))],
                        inbox := (inbox s)[i := tl (inbox s ! i)]\<rparr>)"
        by (rule pool_run_turn [OF inv i])
      with True None Start len show ?thesis by simp
    next
      case False
      with None Start len inv show ?thesis by auto
    qed
  next
    case (Fire i)
    show ?thesis
    proof (cases "i < n \<and> i < length (workers (coord s)) \<and> workers (coord s) ! i")
      case True
      then have i: "i < n" by simp
      from slot_run_Fire [OF slots [OF i]]
      have "pool_run v5 gens p n (s\<lparr>pool := (pool s)[i := worker_step v5 (gens i) (pool s ! i) Timeout],
                        inbox := (inbox s)[i := inbox s ! i]\<rparr>)"
        by (rule pool_run_turn [OF inv i])
      moreover have "(inbox s)[i := inbox s ! i] = inbox s" by simp
      ultimately show ?thesis using True None Fire len by simp
    next
      case False
      with None Fire len inv show ?thesis by auto
    qed
  next
    case (Deliver i)
    with None inv show ?thesis by (auto simp: pool_run_def)
  next
    case Interval
    with None inv show ?thesis by (auto simp: pool_run_def)
  next
    case Interrupt
    with None inv show ?thesis by (auto simp: pool_run_def)
  qed
qed

lemma pool_run_sys_run: "pool_run v5 gens p n (sys_run v5 gens (runBenchmark v5 p n) acts)"
proof (induction acts rule: rev_induct)
  case Nil
  show ?case by (simp add: sys_run_def pool_run_init)
next
  case (snoc a acts)
  then show ?case unfolding sys_run_snoc by (rule pool_run_step)
qed

text \<open>Every worker of the pool is, at any time, either untouched or what its start
  message and some number of timer turns have made of it.\<close>

lemma pool_worker_is_run:
  assumes "i < n"
  shows "pool (sys_run v5 gens (runBenchmark v5 p n) acts) ! i = worker_init
       \<or> (\<exists>k. pool (sys_run v5 gens (runBenchmark v5 p n) acts) ! i
                 = started v5 (gens i) (targetPublic v5 p) i k)"
  using pool_run_sys_run [of v5 gens p n acts] assms
  by (auto simp: pool_run_def slot_run_def split: if_splits)

lemma progress_reports_take:
  assumes "k \<le> q"
  shows "progress_reports wid k = take k (progress_reports wid q)"
proof -
  have "take k [1..<Suc q] = [1..<1 + k]"
    using assms by (intro take_upt) simp
  then show ?thesis
    unfolding progress_reports_def take_map by simp
qed

lemma Found_notin_progress_reports: "Found wid c chk \<notin> set (progress_reports wid' k)"
  by (auto simp: progress_reports_def)

lemma length_progress_reports: "length (progress_reports wid k) = k"
  by (simp add: progress_reports_def)

lemma started_before_match:
  assumes first: "\<forall>k < j. v5 (gen k) (gen k) \<noteq> tp" and t: "t < j div BATCH_SIZE"
  shows "\<exists>b. started v5 gen tp i t
     = \<lparr>timers = [\<lparr>cl_targetPublic = Some tp, cl_workerId = Some i,
                    checked = int (Suc t * BATCH_SIZE), batchCount = b\<rparr>],
        drawn = Suc t * BATCH_SIZE,
        posted = progress_reports (Some i) (Suc t)\<rparr>"
proof -
  have "Suc t * BATCH_SIZE \<le> (j div BATCH_SIZE) * BATCH_SIZE"
    using t by (intro mult_le_mono1) simp
  also have "\<dots> \<le> j" by simp
  finally have "\<forall>k < Suc t * BATCH_SIZE. Some (v5 (gen k) (gen k)) \<noteq> Some tp"
    using first by auto
  from batches_without_match [of t v5 gen "Some tp" "Some i", OF this]
  show ?thesis by (simp add: started_def)
qed

lemma started_after_match:
  assumes hit: "v5 (gen j) (gen j) = tp" and first: "\<forall>k < j. v5 (gen k) (gen k) \<noteq> tp"
    and t: "j div BATCH_SIZE \<le> t"
  shows "started v5 gen tp i t
     = \<lparr>timers = [], drawn = j + 1,
        posted = progress_reports (Some i) (j div BATCH_SIZE)
                 @ [Found (Some i) (gen j) (toString (int j + 1))]\<rparr>"
proof -
  have h: "Some (v5 (gen j) (gen j)) = Some tp" using hit by simp
  have f: "\<forall>k < j. Some (v5 (gen k) (gen k)) \<noteq> Some tp" using first by simp
  from worker_run_until_found [of v5 gen j "Some tp" t "Some i", OF h f t]
  show ?thesis by (simp add: started_def progress_reports_def)
qed

text \<open>
  Claim C2. Let candidate \<open>j\<close> be the first of worker \<open>i\<close> that matches. Given at least
  \<open>j div BATCH_SIZE\<close> timer turns after its start message, the worker has posted the
  \<^verbatim>\<open>progress\<close> messages of the batches before the match and then one \<^verbatim>\<open>found\<close>
  message with \<open>j + 1\<close> as count, has drawn \<open>j + 1\<close> candidates (the rest of the batch
  is not checked) and has no timer pending, however many turns follow. In every run of
  the process, what the worker has posted is at any time a beginning of that sequence:
  at most one \<^verbatim>\<open>found\<close>, with nothing after it.
\<close>

theorem found_ends_the_worker:
  assumes i: "i < n"
    and hit: "v5 (gens i j) (gens i j) = targetPublic v5 p"
    and first: "\<forall>k < j. v5 (gens i k) (gens i k) \<noteq> targetPublic v5 p"
  shows "(\<forall>t. j div BATCH_SIZE \<le> t \<longrightarrow>
            worker_run v5 (gens i) worker_init
              (OnMessage (WorkerMessage (Some (targetPublic v5 p)) (Some i)) # replicate t Timeout)
            = \<lparr>timers = [], drawn = j + 1,
               posted = progress_reports (Some i) (j div BATCH_SIZE)
                        @ [Found (Some i) (gens i j) (toString (int j + 1))]\<rparr>)
     \<and> (\<exists>m. posted (pool (sys_run v5 gens (runBenchmark v5 p n) acts) ! i)
              = take m (progress_reports (Some i) (j div BATCH_SIZE)
                        @ [Found (Some i) (gens i j) (toString (int j + 1))]))
     \<and> drawn (pool (sys_run v5 gens (runBenchmark v5 p n) acts) ! i) \<le> j + 1
     \<and> (Found (Some i) (gens i j) (toString (int j + 1))
           \<in> set (posted (pool (sys_run v5 gens (runBenchmark v5 p n) acts) ! i))
         \<longrightarrow> timers (pool (sys_run v5 gens (runBenchmark v5 p n) acts) ! i) = []
             \<and> drawn (pool (sys_run v5 gens (runBenchmark v5 p n) acts) ! i) = j + 1)"
proof -
  let ?tp = "targetPublic v5 p"
  let ?q = "j div BATCH_SIZE"
  let ?found = "Found (Some i) (gens i j) (toString (int j + 1))"
  let ?ideal = "progress_reports (Some i) ?q @ [?found]"
  let ?w = "pool (sys_run v5 gens (runBenchmark v5 p n) acts) ! i"
  have A: "\<forall>t. ?q \<le> t \<longrightarrow>
            worker_run v5 (gens i) worker_init
              (OnMessage (WorkerMessage (Some ?tp) (Some i)) # replicate t Timeout)
            = \<lparr>timers = [], drawn = j + 1, posted = ?ideal\<rparr>"
    using started_after_match [of v5 "gens i" j ?tp _ i, OF hit first] by (simp add: started_def)
  have B: "(\<exists>m. posted ?w = take m ?ideal) \<and> drawn ?w \<le> j + 1
           \<and> (?found \<in> set (posted ?w) \<longrightarrow> timers ?w = [] \<and> drawn ?w = j + 1)"
  proof -
    from pool_worker_is_run [OF i, of v5 gens p acts]
    consider "?w = worker_init" | t where "?w = started v5 (gens i) ?tp i t" by blast
    then show ?thesis
    proof cases
      case 1
      have "posted worker_init = take 0 ?ideal" by (simp add: worker_init_def)
      then have "\<exists>m. posted worker_init = take m ?ideal" by blast
      with 1 show ?thesis by (simp add: worker_init_def)
    next
      case (2 t)
      show ?thesis
      proof (cases "t < ?q")
        case True
        from started_before_match [of j v5 "gens i" ?tp t i, OF first True] 2 obtain b where
          w: "?w = \<lparr>timers = [\<lparr>cl_targetPublic = Some ?tp, cl_workerId = Some i,
                    checked = int (Suc t * BATCH_SIZE), batchCount = b\<rparr>],
                drawn = Suc t * BATCH_SIZE, posted = progress_reports (Some i) (Suc t)\<rparr>"
          by auto
        from True have le: "Suc t \<le> ?q" by simp
        have "progress_reports (Some i) (Suc t) = take (Suc t) ?ideal"
          using progress_reports_take [OF le, of "Some i"] le
          by (simp add: length_progress_reports)
        then have pre: "\<exists>m. posted ?w = take m ?ideal" unfolding w by auto
        have "Suc t * BATCH_SIZE \<le> ?q * BATCH_SIZE"
          using le by (intro mult_le_mono1)
        also have "\<dots> \<le> j" by simp
        finally have dr: "drawn ?w \<le> j + 1" unfolding w by simp
        have "?found \<notin> set (posted ?w)"
          unfolding w by (simp add: Found_notin_progress_reports)
        with pre dr show ?thesis by blast
      next
        case False
        then have "?q \<le> t" by simp
        from started_after_match [of v5 "gens i" j ?tp t i, OF hit first this] 2
        have w: "?w = \<lparr>timers = [], drawn = j + 1, posted = ?ideal\<rparr>" by simp
        have "posted ?w = take (Suc ?q) ?ideal"
          unfolding w by (simp add: length_progress_reports)
        then have "\<exists>m. posted ?w = take m ?ideal" by blast
        then show ?thesis unfolding w by simp
      qed
    qed
  qed
  from A B show ?thesis by blast
qed

theorem found_ends_the_worker_witness:
  "Found (Some 0) ''s'' ''3''
     \<in> set (posted (pool (sys_run (\<lambda>name ns. name @ ns) (\<lambda>i k. if k = 2 then ''s'' else ''a'')
                             (runBenchmark (\<lambda>name ns. name @ ns) ''s'' 1) [Start 0]) ! 0))
   \<and> timers (pool (sys_run (\<lambda>name ns. name @ ns) (\<lambda>i k. if k = 2 then ''s'' else ''a'')
                             (runBenchmark (\<lambda>name ns. name @ ns) ''s'' 1) [Start 0]) ! 0) = []
   \<and> drawn (pool (sys_run (\<lambda>name ns. name @ ns) (\<lambda>i k. if k = 2 then ''s'' else ''a'')
                             (runBenchmark (\<lambda>name ns. name @ ns) ''s'' 1) [Start 0]) ! 0) = 3"
proof -
  let ?v5 = "\<lambda>name ns :: string. name @ ns"
  let ?gen = "\<lambda>k :: nat. if k = 2 then ''s'' else ''a''"
  let ?gens = "\<lambda>(i :: nat) (k :: nat). if k = 2 then ''s'' else ''a''"
  let ?cl = "\<lparr>cl_targetPublic = Some ''ss'', cl_workerId = Some 0, checked = 0, batchCount = 0\<rparr>"
  have t: "toString 3 = ''3''"
    by (simp add: toString_def decimal.simps digit_char_def)
  have "run_closure ?v5 ?gen worker_init ?cl
      = worker_init\<lparr>timers := timers worker_init, drawn := 2 + 1,
          posted := posted worker_init
            @ [Found (cl_workerId ?cl) (?gen 2) (toString (checked ?cl + int (2 - drawn worker_init) + 1))]\<rparr>"
    by (rule run_closure_match) (simp_all add: worker_init_def BATCH_SIZE_def)
  then have w: "run_closure ?v5 ?gen worker_init ?cl
      = \<lparr>timers = [], drawn = 3, posted = [Found (Some 0) ''s'' ''3'']\<rparr>"
    by (simp add: worker_init_def t)
  have r: "runBenchmark ?v5 ''s'' 1
      = \<lparr>coord = coordinator_init ?v5 ''s'' 1, pool = [worker_init],
         inbox = [[WorkerMessage (Some ''ss'') (Some 0)]], received = [0]\<rparr>"
    by (simp add: runBenchmark_def targetPublic_def)
  have s1: "sys_step ?v5 ?gens
      \<lparr>coord = coordinator_init ?v5 ''s'' 1, pool = [worker_init],
         inbox = [[WorkerMessage (Some ''ss'') (Some 0)]], received = [0]\<rparr> (Start 0)
    =  \<lparr>coord = coordinator_init ?v5 ''s'' 1,
         pool = [run_closure ?v5 ?gen worker_init ?cl],
         inbox = [[]], received = [0]\<rparr>"
    by (simp add: coordinator_init_def)
  have a: "(0::nat) < 1" by simp
  have hit: "?v5 (?gens 0 2) (?gens 0 2) = targetPublic ?v5 ''s''"
    by (simp add: targetPublic_def)
  have first: "\<forall>k < 2. ?v5 (?gens 0 k) (?gens 0 k) \<noteq> targetPublic ?v5 ''s''"
    by (simp add: targetPublic_def)
  have b: "Found (Some 0) ''s'' ''3''
     \<in> set (posted (pool (sys_run ?v5 ?gens (runBenchmark ?v5 ''s'' 1) [Start 0]) ! 0))"
    unfolding sys_run_def r foldl.simps s1 w by simp
  from found_ends_the_worker [of 0 1 ?v5 ?gens 2 "''s''" "[Start 0]", OF a hit first,
      THEN conjunct2, THEN conjunct2, THEN conjunct2] b t
  show ?thesis by simp
qed

section \<open>The interrupt and the exit code\<close>

lemma sigint_summary:
  assumes "exit_code c = None" "\<not> found c"
  shows "dispatch c SIGINT = stopAll (c\<lparr>console := console c @ [Blank, Stopping]\<rparr>)
     \<and> \<not> found (dispatch c SIGINT)
     \<and> console (dispatch c SIGINT)
         = console c @ [Blank, Stopping, Blank, Blank, FinalStatistics,
                        TotalChecked (reduce_sum (workerProgress c)), TotalTime, AvgSpeed,
                        NotFound, Blank]
     \<and> exit_code (dispatch c SIGINT) = Some 0"
  using assms
  by (simp add: sigint_def found_stopAll console_stopAll exit_code_stopAll)

lemma found_message_exit:
  assumes "exit_code c = None"
  shows "found (dispatch c (Message (Found wid foundPrivate (toString x))))
     \<and> exit_code (dispatch c (Message (Found wid foundPrivate (toString x)))) = Some 0"
  using assms by (simp add: BigInt_toString Let_def found_stopAll exit_code_stopAll)

lemma quiet_onmessage:
  assumes "quiet c" "report_ok v5 tp i r"
  shows "quiet (onmessage c r)"
proof (cases r)
  case (Progress wid chk)
  with assms show ?thesis by (auto simp: quiet_def)
next
  case (Found wid cand chk)
  with assms show ?thesis by (auto simp: quiet_def Let_def exit_code_stopAll)
qed

lemma quiet_sys_step:
  assumes inv: "sys_inv v5 p n s" and q: "quiet (coord s)"
  shows "quiet (coord (sys_step v5 gens s a))"
proof (cases "exit_code (coord s)")
  case (Some code)
  with q show ?thesis by simp
next
  case None
  show ?thesis
  proof (cases a)
    case (Start i)
    with q None show ?thesis by simp
  next
    case (Fire i)
    with q None show ?thesis by simp
  next
    case (Deliver i)
    show ?thesis
    proof (cases "i < length (pool s) \<and> i < length (received s)
                    \<and> received s ! i < length (posted (pool s ! i))")
      case True
      with inv have "worker_ok v5 (targetPublic v5 p) i (pool s ! i)"
        by (simp add: sys_inv_def slot_ok_def)
      with True have "report_ok v5 (targetPublic v5 p) i (posted (pool s ! i) ! (received s ! i))"
        by (simp add: worker_ok_def list_all_length)
      from quiet_onmessage [OF q this] True None Deliver show ?thesis by simp
    next
      case False
      with q None Deliver show ?thesis by auto
    qed
  next
    case Interval
    with q None show ?thesis by (simp add: quiet_def progress_tick_def Let_def)
  next
    case Interrupt
    with None show ?thesis by (simp add: quiet_def sigint_def exit_code_stopAll)
  qed
qed

lemma quiet_sys_run: "quiet (coord (sys_run v5 gens (runBenchmark v5 p n) acts))"
proof (induction acts rule: rev_induct)
  case Nil
  show ?case by (simp add: sys_run_def runBenchmark_def coordinator_init_def quiet_def)
next
  case (snoc a acts)
  have "sys_inv v5 p n (sys_run v5 gens (runBenchmark v5 p n) acts)"
    using sys_inv_init by (rule sys_run_inv)
  from quiet_sys_step [OF this snoc] show ?case by (simp add: sys_run_snoc)
qed

lemma exit_code_sys_step:
  "exit_code (coord (sys_step v5 gens s a)) = exit_code (coord s)
   \<or> exit_code (coord (sys_step v5 gens s a)) = Some 0"
proof (cases "exit_code (coord s)")
  case (Some code)
  then show ?thesis by simp
next
  case None
  show ?thesis
  proof (cases a)
    case (Deliver i)
    with None exit_code_dispatch [of "coord s"] show ?thesis
      by (auto simp del: dispatch.simps)
  next
    case Interval
    with None exit_code_dispatch [of "coord s" Tick] show ?thesis
      by (auto simp del: dispatch.simps)
  next
    case Interrupt
    with None exit_code_dispatch [of "coord s" SIGINT] show ?thesis
      by (auto simp del: dispatch.simps)
  qed (use None in auto)
qed

lemma exit_code_sys_run:
  "exit_code (coord (sys_run v5 gens (runBenchmark v5 p n) acts)) = None
   \<or> exit_code (coord (sys_run v5 gens (runBenchmark v5 p n) acts)) = Some 0"
proof (induction acts rule: rev_induct)
  case Nil
  show ?case by (simp add: sys_run_def runBenchmark_def coordinator_init_def)
next
  case (snoc a acts)
  with exit_code_sys_step [of v5 gens "sys_run v5 gens (runBenchmark v5 p n) acts" a]
  show ?case unfolding sys_run_snoc by auto
qed

text \<open>
  Claim C6. In every state that a run of the process reaches while the process lives,
  the interrupt is handled by \<^verbatim>\<open>stopAll()\<close> after two lines of output, the same
  \<^verbatim>\<open>stopAll()\<close> that a \<^verbatim>\<open>found\<close> message calls. The found flag is false then and stays
  false, so the summary ends with the not-found line, and the exit code is 0. A
  \<^verbatim>\<open>found\<close> message in the same state sets the flag and exits with code 0 as well. No
  run ever sets another exit code.
\<close>

theorem interrupt_reports_not_found:
  assumes "exit_code (coord (sys_run v5 gens (runBenchmark v5 p n) acts)) = None"
  shows "coord (sys_run v5 gens (runBenchmark v5 p n) (acts @ [Interrupt]))
           = stopAll ((coord (sys_run v5 gens (runBenchmark v5 p n) acts))
               \<lparr>console := console (coord (sys_run v5 gens (runBenchmark v5 p n) acts))
                             @ [Blank, Stopping]\<rparr>)
     \<and> \<not> found (coord (sys_run v5 gens (runBenchmark v5 p n) (acts @ [Interrupt])))
     \<and> console (coord (sys_run v5 gens (runBenchmark v5 p n) (acts @ [Interrupt])))
         = console (coord (sys_run v5 gens (runBenchmark v5 p n) acts))
           @ [Blank, Stopping, Blank, Blank, FinalStatistics,
              TotalChecked (reduce_sum (workerProgress (coord (sys_run v5 gens (runBenchmark v5 p n) acts)))),
              TotalTime, AvgSpeed, NotFound, Blank]
     \<and> exit_code (coord (sys_run v5 gens (runBenchmark v5 p n) (acts @ [Interrupt]))) = Some 0
     \<and> found (dispatch (coord (sys_run v5 gens (runBenchmark v5 p n) acts))
                 (Message (Found wid foundPrivate (toString x))))
     \<and> exit_code (dispatch (coord (sys_run v5 gens (runBenchmark v5 p n) acts))
                     (Message (Found wid foundPrivate (toString x)))) = Some 0
     \<and> (exit_code (coord (sys_run v5 gens (runBenchmark v5 p n) (acts @ acts'))) = None
        \<or> exit_code (coord (sys_run v5 gens (runBenchmark v5 p n) (acts @ acts'))) = Some 0)"
proof -
  let ?s = "sys_run v5 gens (runBenchmark v5 p n) acts"
  have nf: "\<not> found (coord ?s)"
    using quiet_sys_run [of v5 gens p n acts] assms by (simp add: quiet_def)
  have step: "coord (sys_run v5 gens (runBenchmark v5 p n) (acts @ [Interrupt]))
        = dispatch (coord ?s) SIGINT"
    using assms by (simp add: sys_run_snoc)
  from sigint_summary [OF assms nf] found_message_exit [OF assms, of wid foundPrivate x]
    exit_code_sys_run [of v5 gens p n "acts @ acts'"]
  show ?thesis unfolding step
    using nf by (simp add: found_stopAll console_stopAll exit_code_stopAll del: dispatch.simps)
qed

theorem interrupt_reports_not_found_witness:
  "exit_code (coord (sys_run (\<lambda>name ns. name @ ns) (\<lambda>i k. ''a'')
                       (runBenchmark (\<lambda>name ns. name @ ns) ''s'' 1) [Interval])) = None
   \<and> console (coord (sys_run (\<lambda>name ns. name @ ns) (\<lambda>i k. ''a'')
                       (runBenchmark (\<lambda>name ns. name @ ns) ''s'' 1) ([Interval] @ [Interrupt])))
       = [Target ''s'' ''ss'', Starting 1, ProgressLine 0, Blank, Stopping, Blank, Blank,
          FinalStatistics, TotalChecked 0, TotalTime, AvgSpeed, NotFound, Blank]"
proof -
  let ?v5 = "\<lambda>name ns :: string. name @ ns"
  let ?init = "coordinator_init ?v5 ''s'' 1"
  have c: "coord (sys_run ?v5 (\<lambda>i k. ''a'') (runBenchmark ?v5 ''s'' 1) [Interval])
      = ?init\<lparr>totalChecked := 0, console := [Target ''s'' ''ss'', Starting 1, ProgressLine 0]\<rparr>"
    by (simp add: sys_run_def runBenchmark_def coordinator_init_def progress_tick_def
        reduce_sum_def targetPublic_def)
  have a: "exit_code (coord (sys_run ?v5 (\<lambda>i k. ''a'') (runBenchmark ?v5 ''s'' 1) [Interval])) = None"
    unfolding c by (simp add: coordinator_init_def)
  from interrupt_reports_not_found [OF a, THEN conjunct2, THEN conjunct2, THEN conjunct1] a
  show ?thesis
    unfolding c by (simp add: reduce_sum_def coordinator_init_def)
qed

section \<open>How a worker is stopped\<close>

text \<open>
  Claim C7 says that a worker stops on a stop message, through a check between batches.
  The handler of the worker has one branch, which starts a search loop whatever the
  message is, and \<^verbatim>\<open>checkBatch\<close> sets the next timer without any check. Here a worker
  receives its start message and then a message without the two fields: both loops go
  on posting \<^verbatim>\<open>progress\<close> at every timer turn, and two timers stay pending.
\<close>

theorem stop_message_ignored_counterexample:
  "posted (worker_run (\<lambda>name ns. name @ ns) (\<lambda>n. ''a'') worker_init
     [OnMessage (WorkerMessage (Some ''t'') (Some 0)), OnMessage stop_message, Timeout, Timeout])
   = [Progress (Some 0) ''100000'', Progress None ''100000'',
      Progress (Some 0) ''200000'', Progress None ''200000'']
   \<and> length (timers (worker_run (\<lambda>name ns. name @ ns) (\<lambda>n. ''a'') worker_init
     [OnMessage (WorkerMessage (Some ''t'') (Some 0)), OnMessage stop_message, Timeout, Timeout])) = 2"
  by (simp add: worker_run_def worker_init_def stop_message_def run_closure_no_match
      toString_def decimal.simps digit_char_def BATCH_SIZE_def)

text \<open>
  Claim C7, as the code has it. Whether \<^verbatim>\<open>checkBatch\<close> schedules the next batch depends
  on one thing only: it does so exactly when no candidate of the batch matched. Workers
  are stopped from outside: \<^verbatim>\<open>stopAll()\<close> calls \<^verbatim>\<open>terminate()\<close> on every worker and
  exits the process, after which no worker handles a message or a timer.
\<close>

theorem worker_has_no_stop_check:
  assumes "checkBatch v5 gen cl d = (cl', d', msg, again)"
  shows "again = (\<not> (\<exists>j. d \<le> j \<and> j < d + BATCH_SIZE
                       \<and> Some (v5 (gen j) (gen j)) = cl_targetPublic cl))
     \<and> workers (stopAll c) = replicate (length (workers c)) False
     \<and> exit_code (stopAll c) = Some 0
     \<and> sys_step v5 gens (s\<lparr>coord := stopAll (coord s)\<rparr>) (Fire i) = s\<lparr>coord := stopAll (coord s)\<rparr>
     \<and> sys_step v5 gens (s\<lparr>coord := stopAll (coord s)\<rparr>) (Start i) = s\<lparr>coord := stopAll (coord s)\<rparr>"
  using checkBatch_again_iff [OF assms]
  by (auto simp: workers_stopAll exit_code_stopAll)

theorem worker_has_no_stop_check_witness:
  "checkBatch (\<lambda>name ns. name @ ns) (\<lambda>k. if k = 100000 then ''s'' else ''a'')
      \<lparr>cl_targetPublic = Some ''ss'', cl_workerId = Some 2, checked = 100000, batchCount = 1\<rparr> 100000
    = (\<lparr>cl_targetPublic = Some ''ss'', cl_workerId = Some 2, checked = 100001, batchCount = 1\<rparr>,
       100001, Found (Some 2) ''s'' ''100001'', False)
   \<and> workers (stopAll (coordinator_init (\<lambda>name ns. name @ ns) ''s'' 3)) = [False, False, False]"
proof -
  have h: "checkBatch (\<lambda>name ns. name @ ns) (\<lambda>k. if k = 100000 then ''s'' else ''a'')
      \<lparr>cl_targetPublic = Some ''ss'', cl_workerId = Some 2, checked = 100000, batchCount = 1\<rparr> 100000
    = (\<lparr>cl_targetPublic = Some ''ss'', cl_workerId = Some 2, checked = 100001, batchCount = 1\<rparr>,
       100001, Found (Some 2) ''s'' ''100001'', False)"
    by (simp add: checkBatch_def batch_loop.simps [of _ _ _ 0] BATCH_SIZE_def toString_def
        decimal.simps digit_char_def)
  from worker_has_no_stop_check [OF h, of "coordinator_init (\<lambda>name ns. name @ ns) ''s'' 3",
      THEN conjunct2, THEN conjunct1] h
  show ?thesis by (simp add: coordinator_init_def numeral_3_eq_3)
qed

end
